theory Spec2Isabelle
  imports Complex_Main "HOL-Library.Multiset" "HOL-Library.AList" "HOL-Library.Sorting_Algorithms"
    "HOL-Library.List_Lexorder" "HOL-Library.Product_Lexorder"
begin

section \<open>Values\<close>

text \<open>
  A number of the program: a finite value, taken from the reals, or one of \<^verbatim>\<open>-0\<close>,
  \<^verbatim>\<open>Infinity\<close>, \<^verbatim>\<open>-Infinity\<close> and \<^verbatim>\<open>NaN\<close>. \<open>Finite 0\<close> is \<^verbatim>\<open>+0\<close>. \<^verbatim>\<open>JSON.parse\<close> gives
  \<^verbatim>\<open>Infinity\<close> for a literal beyond the range, such as \<^verbatim>\<open>1e400\<close>, and \<^verbatim>\<open>-0\<close> for \<^verbatim>\<open>-0\<close>.
\<close>

datatype number = Finite real | NegZero | PosInfinity | NegInfinity | NaN

text \<open>
  Parsed JSON values, as \<^verbatim>\<open>JSON.parse\<close> and \<^verbatim>\<open>res.json()\<close> produce them. An object
  is the list of its own properties in the order of their enumeration.
\<close>

datatype json =
    JNull
  | JBool bool
  | JNum number
  | JStr string
  | JArr "json list"
  | JObj "(string \<times> json) list"

text \<open>The exceptions: a \<^verbatim>\<open>TypeError\<close>, the error of a failed download, and the exception
  of \<^verbatim>\<open>setItem\<close> on a full storage.\<close>

datatype error = TypeError | LoadError | QuotaExceededError

text \<open>\<^verbatim>\<open>!v\<close> is false exactly for the truthy values.\<close>

fun truthy :: "json \<Rightarrow> bool" where
  "truthy JNull = False"
| "truthy (JBool b) = b"
| "truthy (JNum x) = (x \<noteq> Finite 0 \<and> x \<noteq> NegZero \<and> x \<noteq> NaN)"
| "truthy (JStr s) = (s \<noteq> [])"
| "truthy (JArr xs) = True"
| "truthy (JObj fs) = True"

text \<open>\<^verbatim>\<open>typeof v === 'object'\<close>; \<^verbatim>\<open>null\<close> has that type as well.\<close>

fun typeof_object :: "json \<Rightarrow> bool" where
  "typeof_object JNull = True"
| "typeof_object (JArr xs) = True"
| "typeof_object (JObj fs) = True"
| "typeof_object v = False"

text \<open>
  Reading the property \<open>p\<close> of a value that is not \<^verbatim>\<open>null\<close>: \<open>None\<close> is
  \<^verbatim>\<open>undefined\<close>. Arrays and primitives have none of the property names the program reads
  (\<^verbatim>\<open>game_type\<close>, \<^verbatim>\<open>sections\<close>, \<^verbatim>\<open>type\<close>, \<^verbatim>\<open>options\<close>, ...).
\<close>

fun get_prop :: "json \<Rightarrow> string \<Rightarrow> json option" where
  "get_prop (JObj fs) p = map_of fs p"
| "get_prop v p = None"

text \<open>\<^verbatim>\<open>o.p = v\<close> on an object: an existing property keeps its place, a new one is appended.\<close>

fun set_prop :: "json \<Rightarrow> string \<Rightarrow> json \<Rightarrow> json" where
  "set_prop (JObj fs) p v = JObj (AList.update p v fs)"
| "set_prop w p v = w"

text \<open>
  \<^verbatim>\<open>JSON.parse(JSON.stringify(v))\<close> for a parsed value \<open>v\<close>: \<^verbatim>\<open>JSON.stringify\<close> writes
  \<^verbatim>\<open>null\<close> for a number that is not finite and \<^verbatim>\<open>0\<close> for \<^verbatim>\<open>-0\<close>; everything else is read
  back as it was.
\<close>

fun number_clone :: "number \<Rightarrow> json" where
  "number_clone (Finite r) = JNum (Finite r)"
| "number_clone NegZero = JNum (Finite 0)"
| "number_clone x = JNull"

fun clone :: "json \<Rightarrow> json" where
  "clone JNull = JNull"
| "clone (JBool b) = JBool b"
| "clone (JNum x) = number_clone x"
| "clone (JStr s) = JStr s"
| "clone (JArr xs) = JArr (map clone xs)"
| "clone (JObj fs) = JObj (map (\<lambda>(p, v). (p, clone v)) fs)"

text \<open>A value without \<^verbatim>\<open>-0\<close> and without numbers that are not finite is its own clone.\<close>

fun plain :: "json \<Rightarrow> bool" where
  "plain (JNum x) = (case x of Finite r \<Rightarrow> True | _ \<Rightarrow> False)"
| "plain (JArr xs) = list_all plain xs"
| "plain (JObj fs) = list_all (\<lambda>(p, v). plain v) fs"
| "plain v = True"

section \<open>The random source\<close>

text \<open>
  \<^verbatim>\<open>Math.random()\<close> returns a number \<open>r\<close> with \<open>0 \<le> r < 1\<close>. The process-wide source is
  the sequence of its future results together with the number of draws made so far.
\<close>

typedef unit_real = "{r :: real. 0 \<le> r \<and> r < 1}"
  by (rule exI [of _ 0]) simp

setup_lifting type_definition_unit_real

type_synonym random_source = "nat \<Rightarrow> unit_real"

text \<open>Two sources for examples: every draw is \<open>0\<close>, every draw is \<open>1/2\<close>.\<close>

lift_definition unit_zero :: unit_real is "0 :: real"
  by simp

lift_definition unit_half :: unit_real is "1 / 2 :: real"
  by simp

definition zero_source :: random_source where
  "zero_source = (\<lambda>k. unit_zero)"

definition half_source :: random_source where
  "half_source = (\<lambda>k. unit_half)"

text \<open>\<^verbatim>\<open>Math.floor(Math.random() * n)\<close>, at draw number \<open>k\<close>.\<close>

definition random_index :: "random_source \<Rightarrow> nat \<Rightarrow> nat \<Rightarrow> nat" where
  "random_index rnd k n = nat \<lfloor>Rep_unit_real (rnd k) * real n\<rfloor>"

section \<open>The randomization engine\<close>

text \<open>
  The Fisher-Yates loop of \<^verbatim>\<open>shuffle\<close>:
  \<^verbatim>\<open>for (let i = copy.length - 1; i > 0; i--) {
    const j = Math.floor(Math.random() * (i + 1));
    [copy[i], copy[j]] = [copy[j], copy[i]]; }\<close>
  The first argument is the loop variable \<open>i\<close>, the third the number of draws made.
\<close>

fun shuffle_loop :: "random_source \<Rightarrow> nat \<Rightarrow> nat \<Rightarrow> 'a list \<Rightarrow> 'a list \<times> nat" where
  "shuffle_loop rnd 0 k copy = (copy, k)"
| "shuffle_loop rnd (Suc i') k copy =
     (let i = Suc i';
          j = random_index rnd k (i + 1)
      in shuffle_loop rnd i' (Suc k) ((copy[i := copy ! j])[j := copy ! i]))"

text \<open>\<^verbatim>\<open>shuffle(arr)\<close> on an array: a shuffled copy. Every call site has checked
  \<^verbatim>\<open>Array.isArray\<close> before.\<close>

definition shuffle :: "random_source \<Rightarrow> 'a list \<Rightarrow> nat \<Rightarrow> 'a list \<times> nat" where
  "shuffle rnd arr k = shuffle_loop rnd (length arr - 1) k arr"

text \<open>
  \<^verbatim>\<open>xs.map(f)\<close> for a callback that draws random numbers and may throw: the elements are
  visited from left to right, and the first exception ends the call. A result is
  \<open>Inr (value, draws)\<close> or \<open>Inl (exception, draws)\<close>, with the number of draws made so far.
\<close>

fun map_rand :: "(json \<Rightarrow> nat \<Rightarrow> error \<times> nat + json \<times> nat) \<Rightarrow> json list \<Rightarrow> nat \<Rightarrow> error \<times> nat + json list \<times> nat" where
  "map_rand f [] k = Inr ([], k)"
| "map_rand f (x # xs) k =
     (case f x k of
        Inl e \<Rightarrow> Inl e
      | Inr (y, k') \<Rightarrow>
          (case map_rand f xs k' of
             Inl e \<Rightarrow> Inl e
           | Inr (ys, k'') \<Rightarrow> Inr (y # ys, k'')))"

text \<open>The idiom \<^verbatim>\<open>if (Array.isArray(o.p)) o.p = shuffle(o.p);\<close> on a value \<open>o\<close> that is
  not \<^verbatim>\<open>null\<close>.\<close>

definition shuffle_prop :: "random_source \<Rightarrow> string \<Rightarrow> json \<Rightarrow> nat \<Rightarrow> json \<times> nat" where
  "shuffle_prop rnd p obj k =
     (case get_prop obj p of
        Some (JArr arr) \<Rightarrow> (let (ys, k') = shuffle rnd arr k in (set_prop obj p (JArr ys), k'))
      | _ \<Rightarrow> (obj, k))"

text \<open>The idiom \<^verbatim>\<open>if (Array.isArray(o.p)) { o.p = shuffle(o.p).map(f); }\<close>.\<close>

definition shuffle_map_prop ::
  "random_source \<Rightarrow> string \<Rightarrow> (json \<Rightarrow> nat \<Rightarrow> error \<times> nat + json \<times> nat) \<Rightarrow> json \<Rightarrow> nat \<Rightarrow> error \<times> nat + json \<times> nat" where
  "shuffle_map_prop rnd p f obj k =
     (case get_prop obj p of
        Some (JArr arr) \<Rightarrow>
          (let (ys, k') = shuffle rnd arr k
           in case map_rand f ys k' of
                Inl e \<Rightarrow> Inl e
              | Inr (zs, k'') \<Rightarrow> Inr (set_prop obj p (JArr zs), k''))
      | _ \<Rightarrow> Inr (obj, k))"

text \<open>
  The callbacks of \<^verbatim>\<open>_randomizePayload\<close>. Each reads a property of its argument first,
  which throws a \<^verbatim>\<open>TypeError\<close> when the argument is \<^verbatim>\<open>null\<close>.
  \<^verbatim>\<open>q => { if (Array.isArray(q.options)) q.options = shuffle(q.options); return q; }\<close>,
  used for the questions of a quiz section and the rows of a capital section:
\<close>

definition options_cb :: "random_source \<Rightarrow> json \<Rightarrow> nat \<Rightarrow> error \<times> nat + json \<times> nat" where
  "options_cb rnd q k = (if q = JNull then Inl (TypeError, k) else Inr (shuffle_prop rnd ''options'' q k))"

text \<open>The callback on the sections of an escape game.\<close>

definition section_cb :: "random_source \<Rightarrow> json \<Rightarrow> nat \<Rightarrow> error \<times> nat + json \<times> nat" where
  "section_cb rnd s k =
     (if s = JNull then Inl (TypeError, k)
      else
        case (if get_prop s ''type'' = Some (JStr ''quiz'')
              then shuffle_map_prop rnd ''questions'' (options_cb rnd) s k
              else Inr (s, k)) of
          Inl e \<Rightarrow> Inl e
        | Inr (s1, k1) \<Rightarrow>
            (let (s2, k2) = (if get_prop s1 ''type'' = Some (JStr ''sort'')
                             then shuffle_prop rnd ''sortCards'' s1 k1
                             else (s1, k1))
             in if get_prop s2 ''type'' = Some (JStr ''capital'')
                then shuffle_map_prop rnd ''rows'' (options_cb rnd) s2 k2
                else Inr (s2, k2)))"

text \<open>The callbacks on the options of a case and on the cases of \<^verbatim>\<open>what_and_why\<close>.\<close>

definition whys_cb :: "random_source \<Rightarrow> json \<Rightarrow> nat \<Rightarrow> error \<times> nat + json \<times> nat" where
  "whys_cb rnd o' k = (if o' = JNull then Inl (TypeError, k) else Inr (shuffle_prop rnd ''whys'' o' k))"

definition case_cb :: "random_source \<Rightarrow> json \<Rightarrow> nat \<Rightarrow> error \<times> nat + json \<times> nat" where
  "case_cb rnd c k =
     (if c = JNull then Inl (TypeError, k)
      else shuffle_map_prop rnd ''options'' (whys_cb rnd) c k)"

text \<open>\<^verbatim>\<open>Array.isArray(v)\<close> for the result of a property read.\<close>

fun is_array :: "json option \<Rightarrow> bool" where
  "is_array (Some (JArr xs)) = True"
| "is_array v = False"

text \<open>\<^verbatim>\<open>result.game_type || result.gameType\<close>.\<close>

definition game_type_of :: "json \<Rightarrow> json option" where
  "game_type_of result =
     (case get_prop result ''game_type'' of
        Some v \<Rightarrow> if truthy v then Some v else get_prop result ''gameType''
      | None \<Rightarrow> get_prop result ''gameType'')"

text \<open>
  \<^verbatim>\<open>_randomizePayload(data)\<close> on a parsed JSON value, in two parts. The second part, from
  the comment \<^verbatim>\<open>// Randomize by game type\<close> to \<^verbatim>\<open>return result\<close>, works on the clone
  \<open>result\<close>, a fresh tree, so the assignments to \<open>result\<close> and to the elements met by the
  callbacks are updates of that tree; the store in which the original and the clone live is
  modelled further down.
\<close>

definition randomize_by_type :: "random_source \<Rightarrow> json \<Rightarrow> nat \<Rightarrow> error \<times> nat + json \<times> nat" where
  "randomize_by_type rnd result k =
     (let type = game_type_of result
      in
          if type = Some (JStr ''escape_game'') \<and> is_array (get_prop result ''sections'')
          then shuffle_map_prop rnd ''sections'' (section_cb rnd) result k
          else if type = Some (JStr ''matching_puzzle'') \<and> is_array (get_prop result ''sets'')
          then Inr (shuffle_prop rnd ''sets'' result k)
          else if type = Some (JStr ''sortier_spiel'') \<and> is_array (get_prop result ''cards'')
          then (let (r1, k1) = shuffle_prop rnd ''cards'' result k
                in Inr (shuffle_prop rnd ''columns'' r1 k1))
          else if type = Some (JStr ''quick_quiz'') \<and> is_array (get_prop result ''questions'')
          then (let (r1, k1) = shuffle_prop rnd ''questions'' result k
                in Inr (shuffle_prop rnd ''answerLabels'' r1 k1))
          else if type = Some (JStr ''wer_bin_ich'')
          then (let (r1, k1) = shuffle_prop rnd ''legalForms'' result k
                in Inr (shuffle_prop rnd ''questions'' r1 k1))
          else if type = Some (JStr ''what_and_why'') \<and> is_array (get_prop result ''cases'')
          then shuffle_map_prop rnd ''cases'' (case_cb rnd) result k
          else Inr (result, k))"

text \<open>The first part: the guard and the deep clone.\<close>

definition randomizePayload :: "random_source \<Rightarrow> json \<Rightarrow> nat \<Rightarrow> error \<times> nat + json \<times> nat" where
  "randomizePayload rnd data k =
     (if \<not> truthy data \<or> \<not> typeof_object data then Inr (data, k)
      else
        let result = clone data
        in randomize_by_type rnd result k)"

section \<open>The randomization contract\<close>

text \<open>
  The contract of the specification, stated on values: a shuffle target holds a permutation
  of its original elements, each of them changed at most by the shuffles of its own targets;
  every other field is unchanged, and no field is added, removed or moved.
  \<open>perm_upto R xs ys\<close>: \<open>ys\<close> is a permutation of \<open>xs\<close> up to \<open>R\<close> on the elements.
\<close>

definition perm_upto :: "(json \<Rightarrow> json \<Rightarrow> bool) \<Rightarrow> json list \<Rightarrow> json list \<Rightarrow> bool" where
  "perm_upto R xs ys \<longleftrightarrow> (\<exists>zs. mset zs = mset xs \<and> list_all2 R zs ys)"

text \<open>\<open>same_outside ps a b\<close>: \<open>b\<close> has the fields of \<open>a\<close>, in the same order, with the same
  values except under the names in \<open>ps\<close>; a value that is not an object is unchanged.\<close>

definition same_outside :: "string set \<Rightarrow> json \<Rightarrow> json \<Rightarrow> bool" where
  "same_outside ps a b \<longleftrightarrow>
     (case a of
        JObj fs \<Rightarrow> (\<exists>gs. b = JObj gs \<and> map fst gs = map fst fs \<and>
                         (\<forall>p. p \<notin> ps \<longrightarrow> map_of gs p = map_of fs p))
      | _ \<Rightarrow> b = a)"

text \<open>\<open>target R p a b\<close>: when \<open>a.p\<close> is an array, \<open>b.p\<close> is a permutation of it up to \<open>R\<close>;
  otherwise \<open>b.p\<close> is \<open>a.p\<close>.\<close>

definition target :: "(json \<Rightarrow> json \<Rightarrow> bool) \<Rightarrow> string \<Rightarrow> json \<Rightarrow> json \<Rightarrow> bool" where
  "target R p a b \<longleftrightarrow>
     (case get_prop a p of
        Some (JArr xs) \<Rightarrow> (\<exists>ys. get_prop b p = Some (JArr ys) \<and> perm_upto R xs ys)
      | _ \<Rightarrow> get_prop b p = get_prop a p)"

text \<open>The shuffle table: what may differ between an element and its randomized variant,
  for a question or row, an option of a case, a section and a case.\<close>

definition options_spec :: "json \<Rightarrow> json \<Rightarrow> bool" where
  "options_spec q q' \<longleftrightarrow> same_outside {''options''} q q' \<and> target (=) ''options'' q q'"

definition whys_spec :: "json \<Rightarrow> json \<Rightarrow> bool" where
  "whys_spec o1 o2 \<longleftrightarrow> same_outside {''whys''} o1 o2 \<and> target (=) ''whys'' o1 o2"

definition section_spec :: "json \<Rightarrow> json \<Rightarrow> bool" where
  "section_spec s s' \<longleftrightarrow>
     (if get_prop s ''type'' = Some (JStr ''quiz'')
      then same_outside {''questions''} s s' \<and> target options_spec ''questions'' s s'
      else if get_prop s ''type'' = Some (JStr ''sort'')
      then same_outside {''sortCards''} s s' \<and> target (=) ''sortCards'' s s'
      else if get_prop s ''type'' = Some (JStr ''capital'')
      then same_outside {''rows''} s s' \<and> target options_spec ''rows'' s s'
      else s' = s)"

definition case_spec :: "json \<Rightarrow> json \<Rightarrow> bool" where
  "case_spec c c' \<longleftrightarrow> same_outside {''options''} c c' \<and> target whys_spec ''options'' c c'"

text \<open>The table at the top level, by content type.\<close>

definition payload_spec :: "json \<Rightarrow> json \<Rightarrow> bool" where
  "payload_spec d d' \<longleftrightarrow>
     (let type = game_type_of d in
      if type = Some (JStr ''escape_game'')
      then same_outside {''sections''} d d' \<and> target section_spec ''sections'' d d'
      else if type = Some (JStr ''matching_puzzle'')
      then same_outside {''sets''} d d' \<and> target (=) ''sets'' d d'
      else if type = Some (JStr ''sortier_spiel'')
      then same_outside {''cards'', ''columns''} d d' \<and>
           target (=) ''cards'' d d' \<and> target (=) ''columns'' d d'
      else if type = Some (JStr ''quick_quiz'')
      then same_outside {''questions'', ''answerLabels''} d d' \<and>
           target (=) ''questions'' d d' \<and> target (=) ''answerLabels'' d d'
      else if type = Some (JStr ''wer_bin_ich'')
      then same_outside {''legalForms'', ''questions''} d d' \<and>
           target (=) ''legalForms'' d d' \<and> target (=) ''questions'' d d'
      else if type = Some (JStr ''what_and_why'')
      then same_outside {''cases''} d d' \<and> target case_spec ''cases'' d d'
      else d' = d)"

text \<open>
  The elements that \<^verbatim>\<open>_randomizePayload\<close> dereferences: \<open>elems_ok P p obj\<close> holds when
  \<open>obj.p\<close> is not an array, or is an array without \<^verbatim>\<open>null\<close> whose elements satisfy \<open>P\<close>.
\<close>

definition elems_ok :: "(json \<Rightarrow> bool) \<Rightarrow> string \<Rightarrow> json \<Rightarrow> bool" where
  "elems_ok P p obj =
     (case get_prop obj p of
        Some (JArr xs) \<Rightarrow> list_all (\<lambda>x. x \<noteq> JNull \<and> P x) xs
      | _ \<Rightarrow> True)"

definition section_ok :: "json \<Rightarrow> bool" where
  "section_ok s =
     (if get_prop s ''type'' = Some (JStr ''quiz'') then elems_ok (\<lambda>q. True) ''questions'' s
      else if get_prop s ''type'' = Some (JStr ''capital'') then elems_ok (\<lambda>r. True) ''rows'' s
      else True)"

definition payload_ok :: "json \<Rightarrow> bool" where
  "payload_ok d =
     (let type = game_type_of d in
      if type = Some (JStr ''escape_game'') then elems_ok section_ok ''sections'' d
      else if type = Some (JStr ''what_and_why'')
      then elems_ok (elems_ok (\<lambda>o'. True) ''options'') ''cases'' d
      else True)"

text \<open>The example payload of the specification: an escape game with one quiz section holding
  one question, and a payload with a \<^verbatim>\<open>null\<close> section.\<close>

definition quiz_example :: json where
  "quiz_example =
     JObj [(''game_type'', JStr ''escape_game''),
           (''sections'', JArr [JObj [(''type'', JStr ''quiz''),
              (''questions'', JArr [JObj [(''options'', JArr [JStr ''A'', JStr ''B'', JStr ''C''])]])]])]"

definition null_section_example :: json where
  "null_section_example =
     JObj [(''game_type'', JStr ''escape_game''), (''sections'', JArr [JNull])]"

section \<open>The node model\<close>

text \<open>
  A node of the index tree: \<^verbatim>\<open>{ id, name, isFolder, kind, children, data }\<close>, the last three
  optional (\<open>None\<close> when the property is absent).
\<close>

datatype node =
  Node (node_id: string) (node_name: string) (isFolder: bool)
       (kind: "string option") (children: "node list option") (node_data: "json option")

section \<open>Loading a payload\<close>

text \<open>
  The text of a storage item: \<open>Json v\<close> is a JSON text that \<^verbatim>\<open>JSON.parse\<close> reads as \<open>v\<close>;
  \<open>Unparsable\<close> is any other text (the empty string, which is falsy, or text that
  \<^verbatim>\<open>JSON.parse\<close> rejects). The text \<^verbatim>\<open>JSON.stringify(v)\<close> is read as \<open>clone v\<close>.
\<close>

datatype item = Unparsable | Json json

type_synonym storage = "string \<Rightarrow> item option"

definition JSON_SESSION_PREFIX :: string where
  "JSON_SESSION_PREFIX = ''game_payload_''"

definition startsWith :: "string \<Rightarrow> string \<Rightarrow> bool" where
  "startsWith s p \<longleftrightarrow> take (length p) s = p"

text \<open>
  \<^verbatim>\<open>GameBase._loadPayload\<close>. The network is the function \<open>fetch\<close> from a URL to the parsed
  body (\<open>None\<close> when the request or the parsing fails, which throws), and \<open>quota_ok\<close> tells
  whether \<^verbatim>\<open>sessionStorage.setItem\<close> succeeds. An exception inside the first \<^verbatim>\<open>try\<close> block,
  also one of \<^verbatim>\<open>_randomizePayload\<close>, is caught there and leads to the fallback.
\<close>

definition loadPayload ::
  "random_source \<Rightarrow> (string \<Rightarrow> json option) \<Rightarrow> bool \<Rightarrow> string \<Rightarrow> storage \<Rightarrow> nat
     \<Rightarrow> error \<times> nat + json \<times> storage \<times> nat" where
  "loadPayload rnd fetch quota_ok fileId ss k =
     (let storageKey = JSON_SESSION_PREFIX @ fileId;
          fallback = (\<lambda>k.
            let fetchUrl = (if startsWith fileId ''http'' then fileId else ''../'' @ fileId)
            in case fetch fetchUrl of
                 None \<Rightarrow> Inl (LoadError, k)
               | Some data \<Rightarrow>
                   (case randomizePayload rnd data k of
                      Inl e \<Rightarrow> Inl e
                    | Inr (randomized, k') \<Rightarrow>
                        Inr (randomized,
                             if quota_ok then ss(storageKey \<mapsto> Json (clone randomized)) else ss, k')))
      in case ss storageKey of
           Some (Json parsed) \<Rightarrow>
             if truthy parsed \<and> typeof_object parsed
             then (case randomizePayload rnd parsed k of
                     Inr (randomized, k') \<Rightarrow> Inr (randomized, ss, k')
                   | Inl (e, k') \<Rightarrow> fallback k')
             else fallback k
         | _ \<Rightarrow> fallback k)"

text \<open>
  The branch of \<^verbatim>\<open>renderViewForId\<close> for a node of kind \<^verbatim>\<open>json\<close>, up to the call of
  \<^verbatim>\<open>loadGame\<close>: missing data is fetched and kept in the node, and truthy data is written
  to \<^verbatim>\<open>sessionStorage\<close> under \<^verbatim>\<open>'game_payload_' + node.id\<close>. The result is what ends the
  call before \<^verbatim>\<open>loadGame\<close>, if anything, with the node and the storage it leaves: the
  failed download, which is caught and shown in the view, or the exception of
  \<^verbatim>\<open>sessionStorage.setItem\<close> (\<open>quota_ok\<close> tells whether it succeeds), which is not caught.
\<close>

definition has_data :: "node \<Rightarrow> bool" where
  "has_data n = (case node_data n of Some d \<Rightarrow> truthy d | None \<Rightarrow> False)"

definition renderView_json ::
  "(string \<Rightarrow> json option) \<Rightarrow> bool \<Rightarrow> node \<Rightarrow> storage \<Rightarrow> error option \<times> node \<times> storage" where
  "renderView_json fetch quota_ok n ss =
     (case (if \<not> has_data n
            then (case fetch (node_id n) of
                    None \<Rightarrow> None
                  | Some d \<Rightarrow> Some (Node (node_id n) (node_name n) (isFolder n) (kind n) (children n) (Some d)))
            else Some n) of
        None \<Rightarrow> (Some LoadError, n, ss)
      | Some n' \<Rightarrow>
          if has_data n'
          then (if quota_ok
                then (None, n', ss(''game_payload_'' @ node_id n' \<mapsto> Json (clone (the (node_data n')))))
                else (Some QuotaExceededError, n', ss))
          else (None, n', ss))"

text \<open>Examples: a matching puzzle with two sets, a node that embeds it, a storage that holds
  it, a network without files, and a source whose draws alternate between \<open>0\<close> and \<open>1/2\<close>;
  a storage that holds the payload with a \<^verbatim>\<open>null\<close> section, and a network with the puzzle.\<close>

definition puzzle_example :: json where
  "puzzle_example =
     JObj [(''game_type'', JStr ''matching_puzzle''),
           (''sets'', JArr [JNum (Finite 1), JNum (Finite 2)])]"

definition puzzle_node :: node where
  "puzzle_node = Node ''database/p.json'' ''p.json'' False (Some ''json'') None (Some puzzle_example)"

definition puzzle_storage :: storage where
  "puzzle_storage = Map.empty(''game_payload_database/p.json'' \<mapsto> Json puzzle_example)"

definition no_network :: "string \<Rightarrow> json option" where
  "no_network = (\<lambda>url. None)"

definition alternating_source :: random_source where
  "alternating_source = (\<lambda>k. if even k then unit_zero else unit_half)"

definition null_storage :: storage where
  "null_storage = Map.empty(''game_payload_database/p.json'' \<mapsto> Json null_section_example)"

definition puzzle_network :: "string \<Rightarrow> json option" where
  "puzzle_network = (\<lambda>url. if url = ''../database/p.json'' then Some puzzle_example else None)"

section \<open>The navigation state\<close>

text \<open>
  \<^verbatim>\<open>appState\<close> is an object, the list of its properties: after \<^verbatim>\<open>loadAppState\<close> a property
  holds whatever the stored text gave it. The page: the state in memory, the flag
  \<^verbatim>\<open>isResizing\<close> of the resizer, and the item of \<^verbatim>\<open>localStorage\<close> under \<^verbatim>\<open>STATE_KEY\<close>.
\<close>

record page =
  appState :: "(string \<times> json) list"
  isResizing :: bool
  persisted :: "item option"

text \<open>The initial value
  \<^verbatim>\<open>{ selectedId: null, openedIds: [], drawerOpen: false, drawerWidth: 320 }\<close>.\<close>

definition default_fields :: "(string \<times> json) list" where
  "default_fields =
     [(''selectedId'', JNull), (''openedIds'', JArr []),
      (''drawerOpen'', JBool False), (''drawerWidth'', JNum (Finite 320))]"

text \<open>
  A transition returns the exception that ended it, if any, and the page it leaves.
  \<^verbatim>\<open>saveAppState\<close> is \<^verbatim>\<open>localStorage.setItem(STATE_KEY, JSON.stringify(appState))\<close>, outside
  any \<^verbatim>\<open>try\<close>: \<open>quota_ok\<close> tells whether \<^verbatim>\<open>setItem\<close> succeeds; when it throws, nothing is
  written.
\<close>

definition saveAppState :: "bool \<Rightarrow> page \<Rightarrow> error option \<times> page" where
  "saveAppState quota_ok s =
     (if quota_ok then (None, s\<lparr>persisted := Some (Json (clone (JObj (appState s))))\<rparr>)
      else (Some QuotaExceededError, s))"

text \<open>\<^verbatim>\<open>selectNode(id)\<close>, up to \<^verbatim>\<open>saveAppState()\<close>; what follows changes the view only.\<close>

definition selectNode :: "bool \<Rightarrow> string \<Rightarrow> page \<Rightarrow> error option \<times> page" where
  "selectNode quota_ok i s =
     saveAppState quota_ok (s\<lparr>appState := AList.update ''selectedId'' (JStr i) (appState s)\<rparr>)"

text \<open>
  \<^verbatim>\<open>toggleNode\<close>. On an array, \<^verbatim>\<open>indexOf\<close> finds the first element that is the string
  \<^verbatim>\<open>id\<close>, \<^verbatim>\<open>splice(idx, 1)\<close> removes it and \<^verbatim>\<open>push\<close> appends. On any other value of
  \<^verbatim>\<open>appState.openedIds\<close> one of the three calls throws a \<^verbatim>\<open>TypeError\<close> (a string has
  \<^verbatim>\<open>indexOf\<close>, but neither \<^verbatim>\<open>splice\<close> nor \<^verbatim>\<open>push\<close>), before anything is changed or saved.
\<close>

definition toggleNode :: "bool \<Rightarrow> string \<Rightarrow> page \<Rightarrow> error option \<times> page" where
  "toggleNode quota_ok i s =
     (case map_of (appState s) ''openedIds'' of
        Some (JArr xs) \<Rightarrow>
          saveAppState quota_ok (s\<lparr>appState := AList.update ''openedIds''
             (JArr (if JStr i \<in> set xs then remove1 (JStr i) xs else xs @ [JStr i])) (appState s)\<rparr>)
      | _ \<Rightarrow> (Some TypeError, s))"

definition setDrawer :: "bool \<Rightarrow> bool \<Rightarrow> page \<Rightarrow> error option \<times> page" where
  "setDrawer quota_ok isOpen s =
     saveAppState quota_ok (s\<lparr>appState := AList.update ''drawerOpen'' (JBool isOpen) (appState s)\<rparr>)"

text \<open>\<^verbatim>\<open>setDrawer(!appState.drawerOpen)\<close>; a missing property is \<^verbatim>\<open>undefined\<close>, which is falsy.\<close>

definition toggleDrawer :: "bool \<Rightarrow> page \<Rightarrow> error option \<times> page" where
  "toggleDrawer quota_ok s =
     setDrawer quota_ok
       (\<not> (case map_of (appState s) ''drawerOpen'' of Some v \<Rightarrow> truthy v | None \<Rightarrow> False)) s"

text \<open>The three listeners of \<^verbatim>\<open>initResizer\<close>; \<^verbatim>\<open>mousemove\<close> gets \<^verbatim>\<open>e.clientX\<close> and
  \<^verbatim>\<open>window.innerWidth\<close>.\<close>

definition mousedown :: "page \<Rightarrow> page" where
  "mousedown s = s\<lparr>isResizing := True\<rparr>"

definition mousemove :: "real \<Rightarrow> real \<Rightarrow> page \<Rightarrow> page" where
  "mousemove clientX innerWidth s =
     (if \<not> isResizing s then s
      else
        let newWidth = clientX;
            newWidth = (if newWidth < 200 then 200 else newWidth);
            newWidth = (if newWidth > innerWidth * 0.8 then innerWidth * 0.8 else newWidth)
        in s\<lparr>appState := AList.update ''drawerWidth'' (JNum (Finite newWidth)) (appState s)\<rparr>)"

definition mouseup :: "bool \<Rightarrow> page \<Rightarrow> error option \<times> page" where
  "mouseup quota_ok s =
     (if isResizing s then saveAppState quota_ok (s\<lparr>isResizing := False\<rparr>) else (None, s))"

text \<open>\<open>in_sync s\<close>: the persisted item is the JSON text of the state in memory. It reads back
  as that state when the state is plain.\<close>

definition in_sync :: "page \<Rightarrow> bool" where
  "in_sync s \<longleftrightarrow> persisted s = Some (Json (clone (JObj (appState s))))"

definition initial_page :: page where
  "initial_page =
     snd (saveAppState True \<lparr>appState = default_fields, isResizing = False, persisted = None\<rparr>)"

text \<open>
  \<^verbatim>\<open>loadAppState\<close>: \<^verbatim>\<open>Object.assign\<close> copies whatever the stored value holds. The own
  enumerable properties
  of a parsed value: the fields of an object, the elements of an array and the characters
  of a string under their indices, none for the other values.
\<close>

function show_nat :: "nat \<Rightarrow> string" where
  "show_nat n =
     (if n < 10 then [char_of (48 + n)]
      else show_nat (n div 10) @ [char_of (48 + n mod 10)])"
  by pat_completeness auto
termination
  by (relation "measure id") auto

fun own_properties :: "json \<Rightarrow> (string \<times> json) list" where
  "own_properties (JObj fs) = fs"
| "own_properties (JArr xs) = zip (map show_nat [0..<length xs]) xs"
| "own_properties (JStr s) = zip (map show_nat [0..<length s]) (map (\<lambda>c. JStr [c]) s)"
| "own_properties v = []"

text \<open>
  \<^verbatim>\<open>Object.assign(target, source)\<close> assigns the properties of the source in their order.
  Assigning to \<^verbatim>\<open>__proto__\<close> reaches the setter of \<^verbatim>\<open>Object.prototype\<close> and leaves the own
  properties of the target as they are.
\<close>

definition Object_assign :: "(string \<times> json) list \<Rightarrow> json \<Rightarrow> (string \<times> json) list" where
  "Object_assign tgt source =
     fold (\<lambda>(p, v) t. if p = ''__proto__'' then t else AList.update p v t) (own_properties source) tgt"

text \<open>
  \<^verbatim>\<open>loadAppState\<close>: the \<^verbatim>\<open>try\<close> block ends without effect when the item is missing, empty
  or rejected by \<^verbatim>\<open>JSON.parse\<close>; the \<^verbatim>\<open>catch\<close> swallows the exception.
\<close>

definition loadAppState :: "(string \<times> json) list \<Rightarrow> item option \<Rightarrow> (string \<times> json) list" where
  "loadAppState st raw =
     (case raw of
        Some (Json v) \<Rightarrow> Object_assign st v
      | _ \<Rightarrow> st)"

text \<open>The values a field of the navigation state can hold, by the data model.\<close>

definition field_valid :: "string \<Rightarrow> json \<Rightarrow> bool" where
  "field_valid p v =
     (if p = ''selectedId'' then (case v of JNull \<Rightarrow> True | JStr i \<Rightarrow> True | _ \<Rightarrow> False)
      else if p = ''openedIds''
      then (case v of JArr xs \<Rightarrow> list_all (\<lambda>x. case x of JStr i \<Rightarrow> True | _ \<Rightarrow> False) xs | _ \<Rightarrow> False)
      else if p = ''drawerOpen'' then (case v of JBool b \<Rightarrow> True | _ \<Rightarrow> False)
      else if p = ''drawerWidth'' then (case v of JNum w \<Rightarrow> True | _ \<Rightarrow> False)
      else False)"

definition corrupt_blob :: json where
  "corrupt_blob = JObj [(''selectedId'', JStr ''a''), (''openedIds'', JStr ''oops'')]"

text \<open>The page after \<^verbatim>\<open>loadAppState\<close> has read that blob: \<^verbatim>\<open>openedIds\<close> is a string.\<close>

definition corrupt_page :: page where
  "corrupt_page =
     \<lparr>appState = loadAppState default_fields (Some (Json corrupt_blob)),
      isResizing = False, persisted = None\<rparr>"

section \<open>The local tree builder\<close>

text \<open>
  What \<^verbatim>\<open>fs.readdirSync(dirPath, { withFileTypes: true })\<close> finds, recursively: a directory
  with its entries, or any other entry with the result of reading it and parsing it as JSON
  (\<open>None\<close> when the read or \<^verbatim>\<open>JSON.parse\<close> throws).
\<close>

datatype dirent = File string "json option" | Dir string "dirent list"

fun ent_name :: "dirent \<Rightarrow> string" where
  "ent_name (File name content) = name"
| "ent_name (Dir name entries) = name"

fun isDirectory :: "dirent \<Rightarrow> bool" where
  "isDirectory (File name content) = False"
| "isDirectory (Dir name entries) = True"

text \<open>
  The comparator given to \<^verbatim>\<open>items.sort\<close>. The collation
  \<^verbatim>\<open>a.localeCompare(b, undefined, { numeric: true, sensitivity: 'base' })\<close> belongs to the
  platform and is a parameter \<open>lc\<close>: a consistent comparison, with \<open>Less\<close>, \<open>Equiv\<close>,
  \<open>Greater\<close> for a negative, zero, positive result.
\<close>

lift_definition item_order :: "string comparator \<Rightarrow> dirent comparator" is
  "\<lambda>lc a b.
     if isDirectory a \<and> \<not> isDirectory b then Less
     else if \<not> isDirectory a \<and> isDirectory b then Greater
     else lc (ent_name a) (ent_name b)"
proof -
  fix lc :: "string \<Rightarrow> string \<Rightarrow> comp"
  assume c: "comparator lc"
  show "comparator (\<lambda>a b.
     if isDirectory a \<and> \<not> isDirectory b then Less
     else if \<not> isDirectory a \<and> isDirectory b then Greater
     else lc (ent_name a) (ent_name b))"
  proof (rule comparator.intro)
    fix a b c'
    show "(if isDirectory a \<and> \<not> isDirectory a then Less
           else if \<not> isDirectory a \<and> isDirectory a then Greater
           else lc (ent_name a) (ent_name a)) = Equiv"
      using comparator.refl [OF c] by simp
  next
    fix a b c'
    assume "(if isDirectory a \<and> \<not> isDirectory b then Less
             else if \<not> isDirectory a \<and> isDirectory b then Greater
             else lc (ent_name a) (ent_name b)) = Equiv"
      and "(if isDirectory b \<and> \<not> isDirectory c' then Less
             else if \<not> isDirectory b \<and> isDirectory c' then Greater
             else lc (ent_name b) (ent_name c')) = Equiv"
    then show "(if isDirectory a \<and> \<not> isDirectory c' then Less
             else if \<not> isDirectory a \<and> isDirectory c' then Greater
             else lc (ent_name a) (ent_name c')) = Equiv"
      using comparator.trans_equiv [OF c] by (auto split: if_splits)
  next
    fix a b c'
    assume "(if isDirectory a \<and> \<not> isDirectory b then Less
             else if \<not> isDirectory a \<and> isDirectory b then Greater
             else lc (ent_name a) (ent_name b)) = Less"
      and "(if isDirectory b \<and> \<not> isDirectory c' then Less
             else if \<not> isDirectory b \<and> isDirectory c' then Greater
             else lc (ent_name b) (ent_name c')) = Less"
    then show "(if isDirectory a \<and> \<not> isDirectory c' then Less
             else if \<not> isDirectory a \<and> isDirectory c' then Greater
             else lc (ent_name a) (ent_name c')) = Less"
      using comparator.trans_less [OF c] by (auto split: if_splits)
  next
    fix a b
    show "((if isDirectory b \<and> \<not> isDirectory a then Less
            else if \<not> isDirectory b \<and> isDirectory a then Greater
            else lc (ent_name b) (ent_name a)) = Greater) =
          ((if isDirectory a \<and> \<not> isDirectory b then Less
            else if \<not> isDirectory a \<and> isDirectory b then Greater
            else lc (ent_name a) (ent_name b)) = Less)"
      using comparator.greater_iff_sym_less [OF c] by auto
  qed
qed

text \<open>\<^verbatim>\<open>toLowerCase\<close> on the letters that matter for the extensions compared, A to Z.\<close>

definition to_lower :: "char \<Rightarrow> char" where
  "to_lower c =
     (case map_of (zip ''ABCDEFGHIJKLMNOPQRSTUVWXYZ'' ''abcdefghijklmnopqrstuvwxyz'') c of
        Some l \<Rightarrow> l
      | None \<Rightarrow> c)"

definition toLowerCase :: "string \<Rightarrow> string" where
  "toLowerCase s = map to_lower s"

text \<open>
  \<^verbatim>\<open>path.extname\<close> of a file name: the part from the last dot on, empty when the name has no
  dot or its only dot is the first character.
\<close>

definition extname :: "string \<Rightarrow> string" where
  "extname name =
     (let after = rev (takeWhile (\<lambda>c. c \<noteq> CHR ''.'') (rev name))
      in if CHR ''.'' \<notin> set name \<or> Suc (length after) = length name then []
         else CHR ''.'' # after)"

text \<open>
  \<^verbatim>\<open>scanDir(dirPath)\<close>, with the path of the directory relative to the project root
  (\<^verbatim>\<open>database\<close> at the top), in which the ids are formed. \<open>scan_item\<close> is the body of the
  loop over the sorted items: what it pushes to \<^verbatim>\<open>result\<close> for one item, nothing or one node.
\<close>

function scanDir :: "string comparator \<Rightarrow> string \<Rightarrow> dirent list \<Rightarrow> node list"
  and scan_item :: "string comparator \<Rightarrow> string \<Rightarrow> dirent \<Rightarrow> node list" where
  "scanDir lc dirPath items = concat (map (scan_item lc dirPath) (sort (item_order lc) items))"
| "scan_item lc dirPath item =
     (if startsWith (ent_name item) ''.'' then []
      else
        let relativePath = dirPath @ ''/'' @ ent_name item
        in case item of
             Dir name entries \<Rightarrow>
               (let children = scanDir lc relativePath entries
                in if length children > 0
                   then [Node relativePath name True None (Some children) None]
                   else [])
           | File name content \<Rightarrow>
               (let ext = toLowerCase (extname name)
                in if ext = ''.json'' then [Node relativePath name False (Some ''json'') None content]
                   else if ext = ''.pdf'' then [Node relativePath name False (Some ''pdf'') None None]
                   else if ext = ''.pptx'' \<or> ext = ''.ppt''
                   then [Node relativePath name False (Some ''pptx'') None None]
                   else []))"
  by pat_completeness auto
termination
proof (relation "measure (\<lambda>x. case x of
          Inl (lc, dirPath, items) \<Rightarrow> 2 * size_list size items + 1
        | Inr (lc, dirPath, item) \<Rightarrow> 2 * size item)")
  show "wf (measure (\<lambda>x. case x of
          Inl (lc, dirPath, items) \<Rightarrow> 2 * size_list size items + 1
        | Inr (lc :: string comparator, dirPath :: string, item :: dirent) \<Rightarrow> 2 * size item))"
    by simp
next
  fix lc :: "string comparator" and dirPath :: string and items :: "dirent list" and item :: dirent
  assume "item \<in> set (sort (item_order lc) items)"
  then have "item \<in> set items" by simp
  then have "size item \<le> size_list size items"
    by (simp add: size_list_estimation')
  then show "(Inr (lc, dirPath, item), Inl (lc, dirPath, items))
      \<in> measure (\<lambda>x. case x of
          Inl (lc, dirPath, items) \<Rightarrow> 2 * size_list size items + 1
        | Inr (lc, dirPath, item) \<Rightarrow> 2 * size item)"
    by simp
next
  fix lc :: "string comparator" and dirPath :: string and item :: dirent
    and relativePath :: string and name :: string and entries :: "dirent list"
  assume "item = Dir name entries"
  then show "(Inl (lc, relativePath, entries), Inr (lc, dirPath, item))
      \<in> measure (\<lambda>x. case x of
          Inl (lc, dirPath, items) \<Rightarrow> 2 * size_list size items + 1
        | Inr (lc, dirPath, item) \<Rightarrow> 2 * size item)"
    by simp
qed

text \<open>The nodes of a tree, and the sibling lists of a tree: the list of roots and the
  children of every node.\<close>

fun all_nodes :: "node \<Rightarrow> node list" where
  "all_nodes (Node i nm f k cs d) =
     Node i nm f k cs d # (case cs of None \<Rightarrow> [] | Some ns \<Rightarrow> concat (map all_nodes ns))"

definition tree_nodes :: "node list \<Rightarrow> node list" where
  "tree_nodes t = concat (map all_nodes t)"

definition sibling_lists :: "node list \<Rightarrow> node list set" where
  "sibling_lists t = insert t {cs. \<exists>n \<in> set (tree_nodes t). children n = Some cs}"

text \<open>The order of siblings: folders before files, then by name in the collation.\<close>

definition sibling_le :: "string comparator \<Rightarrow> node \<Rightarrow> node \<Rightarrow> bool" where
  "sibling_le lc a b \<longleftrightarrow>
     (isFolder a \<and> \<not> isFolder b) \<or>
     (isFolder a = isFolder b \<and> compare lc (node_name a) (node_name b) \<noteq> Greater)"

text \<open>The recognized extensions and the kinds they give.\<close>

definition kind_of_ext :: "string \<Rightarrow> string option" where
  "kind_of_ext ext =
     (if ext = ''.json'' then Some ''json''
      else if ext = ''.pdf'' then Some ''pdf''
      else if ext = ''.pptx'' \<or> ext = ''.ppt'' then Some ''pptx''
      else None)"

text \<open>The node pushed for an item, if any, has the item's name and is a folder exactly for
  a directory.\<close>

definition emitted :: "dirent \<Rightarrow> node \<Rightarrow> bool" where
  "emitted x n \<longleftrightarrow> node_name n = ent_name x \<and> isFolder n = isDirectory x"

text \<open>An entry without any visible file of a recognized type below it.\<close>

fun barren :: "dirent \<Rightarrow> bool" where
  "barren (File name content) \<longleftrightarrow>
     startsWith name ''.'' \<or> kind_of_ext (toLowerCase (extname name)) = None"
| "barren (Dir name entries) \<longleftrightarrow> startsWith name ''.'' \<or> list_all barren entries"

text \<open>
  A collation for examples, on ASCII names: letters compare without case, and a run of
  digits compares by its value. The key of a name is the list of its characters, as
  (code, 0), with every run of digits replaced by (48, value).
\<close>

definition is_digit :: "char \<Rightarrow> bool" where
  "is_digit c \<longleftrightarrow> (48 :: nat) \<le> of_char c \<and> of_char c \<le> (57 :: nat)"

fun collation_key :: "nat option \<Rightarrow> string \<Rightarrow> (nat \<times> nat) list" where
  "collation_key acc [] = (case acc of None \<Rightarrow> [] | Some n \<Rightarrow> [(48, n)])"
| "collation_key acc (c # cs) =
     (if is_digit c
      then collation_key (Some ((case acc of None \<Rightarrow> 0 | Some n \<Rightarrow> 10 * n) + (of_char c - 48))) cs
      else (case acc of None \<Rightarrow> [] | Some n \<Rightarrow> [(48, n)]) @
           (of_char (to_lower c), 0) # collation_key None cs)"

definition numeric_collation :: "string comparator" where
  "numeric_collation = key (collation_key None) default"

text \<open>A directory for examples: two numbered games, a folder with a game, a folder with
  nothing but a text file, a hidden file and a picture.\<close>

definition example_dir :: "dirent list" where
  "example_dir =
     [File ''Item 10.json'' (Some (JObj [])),
      File ''.hidden.json'' None,
      Dir ''notes'' [File ''readme.txt'' None],
      File ''Item 2.JSON'' None,
      File ''photo.png'' None,
      Dir ''B'' [File ''a.pdf'' None]]"

section \<open>The flat-list tree builder\<close>

text \<open>An entry of the remote listing: \<^verbatim>\<open>{ path, type }\<close>.\<close>

record flat_entry =
  entry_path :: string
  entry_type :: string

text \<open>\<^verbatim>\<open>s.split(c)\<close> for a separator of one character: never empty.\<close>

fun split_on :: "char \<Rightarrow> string \<Rightarrow> string list" where
  "split_on c [] = [[]]"
| "split_on c (x # xs) =
     (if x = c then [] # split_on c xs
      else (case split_on c xs of p # ps \<Rightarrow> (x # p) # ps | [] \<Rightarrow> [[x]]))"

text \<open>
  The lookup table \<^verbatim>\<open>map\<close> is an object: the list of its own properties in the order of
  their creation. A value of the table is the holder \<^verbatim>\<open>{ children: root }\<close> or a created
  node \<^verbatim>\<open>{ id, name, isFolder, kind, children }\<close>; a \<^verbatim>\<open>children\<close> array holds its nodes by
  reference, here by their keys in the table, under which they stay for good.
\<close>

datatype mapped =
    Holder "string list"
  | Made string string bool "string option" "string list option"

type_synonym lookup = "(string \<times> mapped) list"

text \<open>The names that every object inherits from \<^verbatim>\<open>Object.prototype\<close>: reading them from
  the table gives a truthy value that has no \<^verbatim>\<open>children\<close>.\<close>

definition inherited :: "string \<Rightarrow> bool" where
  "inherited k \<longleftrightarrow> k \<in> set [''constructor'', ''hasOwnProperty'', ''isPrototypeOf'',
     ''propertyIsEnumerable'', ''toLocaleString'', ''toString'', ''valueOf'', ''__proto__'',
     ''__defineGetter__'', ''__defineSetter__'', ''__lookupGetter__'', ''__lookupSetter__'']"

text \<open>\<^verbatim>\<open>map[k]\<close> is truthy.\<close>

definition in_table :: "lookup \<Rightarrow> string \<Rightarrow> bool" where
  "in_table m k \<longleftrightarrow> inherited k \<or> map_of m k \<noteq> None"

text \<open>\<^verbatim>\<open>map[parentPath].children.push(node)\<close>, for a parent in the table; it throws when the
  parent has no \<^verbatim>\<open>children\<close>.\<close>

definition push_child :: "lookup \<Rightarrow> string \<Rightarrow> string \<Rightarrow> error + lookup" where
  "push_child m parentPath child =
     (case map_of m parentPath of
        Some (Holder ks) \<Rightarrow> Inr (AList.update parentPath (Holder (ks @ [child])) m)
      | Some (Made i nm fo kd (Some ks)) \<Rightarrow>
          Inr (AList.update parentPath (Made i nm fo kd (Some (ks @ [child]))) m)
      | _ \<Rightarrow> Inl TypeError)"

text \<open>The kind of a file node: \<^verbatim>\<open>part.split('.').pop().toLowerCase()\<close> decides.\<close>

definition flat_kind :: "string \<Rightarrow> string option" where
  "flat_kind part =
     (let ext = toLowerCase (last (split_on CHR ''.'' part))
      in if ext = ''json'' then Some ''json''
         else if ext = ''pdf'' then Some ''pdf''
         else if ext = ''pptx'' \<or> ext = ''ppt'' then Some ''pptx''
         else None)"

text \<open>\<^verbatim>\<open>forEach\<close> with a callback that may throw, on a state.\<close>

fun forEach :: "('a \<Rightarrow> 's \<Rightarrow> error + 's) \<Rightarrow> 'a list \<Rightarrow> 's \<Rightarrow> error + 's" where
  "forEach f [] s = Inr s"
| "forEach f (x # xs) s = (case f x s of Inl e \<Rightarrow> Inl e | Inr s' \<Rightarrow> forEach f xs s')"

text \<open>
  The inner callback \<^verbatim>\<open>(part, i) => { ... }\<close> for the entry \<open>n\<close> with \<open>len\<close> parts, on the
  table and \<^verbatim>\<open>currentPath\<close>.
\<close>

definition visit_part ::
  "flat_entry \<Rightarrow> nat \<Rightarrow> nat \<times> string \<Rightarrow> lookup \<times> string \<Rightarrow> error + lookup \<times> string" where
  "visit_part n len ip s =
     (let (i, part) = ip;
          (m, currentPath) = s;
          parentPath = currentPath;
          currentPath = (if currentPath \<noteq> [] then currentPath @ ''/'' @ part else part)
      in if \<not> in_table m currentPath
         then
           let isFolder = (entry_type n = ''tree'' \<or> i < len - 1);
               node = (if isFolder then Made currentPath part True None (Some [])
                       else Made currentPath part False (flat_kind part) None);
               m = m @ [(currentPath, node)]
           in if in_table m parentPath
              then (case push_child m parentPath currentPath of
                      Inl e \<Rightarrow> Inl e
                    | Inr m' \<Rightarrow> Inr (m', currentPath))
              else Inr (m, currentPath)
         else Inr (m, currentPath))"

text \<open>The outer callback \<^verbatim>\<open>n => { ... }\<close>.\<close>

definition visit_entry :: "flat_entry \<Rightarrow> lookup \<Rightarrow> error + lookup" where
  "visit_entry n m =
     (let parts = split_on CHR ''/'' (entry_path n)
      in case forEach (visit_part n (length parts)) (zip [0..<length parts] parts) (m, []) of
           Inl e \<Rightarrow> Inl e
         | Inr (m', currentPath) \<Rightarrow> Inr m')"

text \<open>
  The tree that a table holds. A node enters the table before its children do, so the
  nodes are read from the last created to the first, each with the nodes of its children
  read before; a node with a child that was not read before has no tree.
\<close>

fun build_table :: "lookup \<Rightarrow> (string \<times> node) list" where
  "build_table [] = []"
| "build_table ((k, v) # rest) =
     (let tbl = build_table rest
      in case v of
           Holder ks \<Rightarrow> tbl
         | Made i nm fo kd None \<Rightarrow> (k, Node i nm fo kd None None) # tbl
         | Made i nm fo kd (Some ks) \<Rightarrow>
             (case those (map (map_of tbl) ks) of
                Some cs \<Rightarrow> (k, Node i nm fo kd (Some cs) None) # tbl
              | None \<Rightarrow> tbl))"

text \<open>\<^verbatim>\<open>root\<close>, the array of the holder, read as a tree.\<close>

definition root_tree :: "lookup \<Rightarrow> node list option" where
  "root_tree m =
     (case map_of m ''database'' of
        Some (Holder ks) \<Rightarrow> those (map (map_of (build_table m)) ks)
      | _ \<Rightarrow> None)"

text \<open>\<^verbatim>\<open>buildTreeFromFlatList(list)\<close>.\<close>

definition buildTreeFromFlatList :: "flat_entry list \<Rightarrow> error + node list" where
  "buildTreeFromFlatList list =
     (case forEach visit_entry list [(''database'', Holder [])] of
        Inl e \<Rightarrow> Inl e
      | Inr m \<Rightarrow> (case root_tree m of Some t \<Rightarrow> Inr t | None \<Rightarrow> Inl TypeError))"

text \<open>The filter of \<^verbatim>\<open>rebuildIndexFromGithub\<close>:
  \<^verbatim>\<open>data.tree.filter(n => n.path.startsWith('database/') && n.path !== 'database')\<close>.\<close>

definition rawNodes :: "flat_entry list \<Rightarrow> flat_entry list" where
  "rawNodes tree = filter (\<lambda>n. startsWith (entry_path n) ''database/'' \<and> entry_path n \<noteq> ''database'') tree"

text \<open>The listing of the specification's example, and a listing with a text file.\<close>

definition listing_example :: "flat_entry list" where
  "listing_example =
     [\<lparr>entry_path = ''database/x.json'', entry_type = ''blob''\<rparr>,
      \<lparr>entry_path = ''database'', entry_type = ''tree''\<rparr>]"

definition listing_with_text :: "flat_entry list" where
  "listing_with_text = [\<lparr>entry_path = ''database/notes.txt'', entry_type = ''blob''\<rparr>]"

section \<open>The store: objects, arrays and references\<close>

text \<open>
  For the claims about copying and mutation, \<^verbatim>\<open>_randomizePayload\<close> is modelled a second time
  on a store. A value is a primitive or a reference; the store is the list of the objects
  and arrays allocated so far, and a reference is an index into it. A new object or array
  is appended, so the references that existed before an allocation stay valid.
\<close>

type_synonym addr = nat

datatype val = VUndefined | VNull | VBool bool | VNum number | VStr string | VRef addr

datatype cell = Obj "(string \<times> val) list" | Arr "val list"

type_synonym heap = "cell list"

text \<open>The values that a cell holds.\<close>

fun cell_vals :: "cell \<Rightarrow> val list" where
  "cell_vals (Obj fs) = map snd fs"
| "cell_vals (Arr vs) = vs"

fun truthy_v :: "val \<Rightarrow> bool" where
  "truthy_v VUndefined = False"
| "truthy_v VNull = False"
| "truthy_v (VBool b) = b"
| "truthy_v (VNum x) = (x \<noteq> Finite 0 \<and> x \<noteq> NegZero \<and> x \<noteq> NaN)"
| "truthy_v (VStr s) = (s \<noteq> [])"
| "truthy_v (VRef a) = True"

fun typeof_object_v :: "val \<Rightarrow> bool" where
  "typeof_object_v VNull = True"
| "typeof_object_v (VRef a) = True"
| "typeof_object_v v = False"

text \<open>
  \<^verbatim>\<open>JSON.stringify\<close> reads the value that a reference denotes: \<^verbatim>\<open>undefined\<close> is \<^verbatim>\<open>null\<close> in an
  array and is left out of an object. The first argument bounds the depth of the reading;
  \<open>None\<close> stands for the \<^verbatim>\<open>TypeError\<close> on a cyclic structure.
\<close>

fun stringify :: "nat \<Rightarrow> heap \<Rightarrow> val \<Rightarrow> json option" where
  "stringify n h VUndefined = None"
| "stringify n h VNull = Some JNull"
| "stringify n h (VBool b) = Some (JBool b)"
| "stringify n h (VNum x) = Some (number_clone x)"
| "stringify n h (VStr s) = Some (JStr s)"
| "stringify 0 h (VRef a) = None"
| "stringify (Suc n) h (VRef a) =
     (if a < length h
      then (case h ! a of
              Arr vs \<Rightarrow>
                map_option JArr
                  (those (map (\<lambda>v. stringify n h (if v = VUndefined then VNull else v)) vs))
            | Obj fs \<Rightarrow>
                map_option JObj
                  (those (map (\<lambda>(p, v). map_option (Pair p) (stringify n h v))
                              (filter (\<lambda>(p, v). v \<noteq> VUndefined) fs))))
      else None)"

text \<open>A structure without cycles in a store of \<open>length h\<close> cells is at most that deep.\<close>

definition JSON_stringify :: "heap \<Rightarrow> val \<Rightarrow> json option" where
  "JSON_stringify h v = stringify (Suc (length h)) h v"

text \<open>\<^verbatim>\<open>JSON.parse\<close> builds the value of a text from new objects and arrays.\<close>

fun JSON_parse :: "json \<Rightarrow> heap \<Rightarrow> val \<times> heap"
  and parse_elements :: "json list \<Rightarrow> heap \<Rightarrow> val list \<times> heap"
  and parse_fields :: "(string \<times> json) list \<Rightarrow> heap \<Rightarrow> (string \<times> val) list \<times> heap" where
  "JSON_parse JNull h = (VNull, h)"
| "JSON_parse (JBool b) h = (VBool b, h)"
| "JSON_parse (JNum x) h = (VNum x, h)"
| "JSON_parse (JStr s) h = (VStr s, h)"
| "JSON_parse (JArr xs) h =
     (let (vs, h') = parse_elements xs h in (VRef (length h'), h' @ [Arr vs]))"
| "JSON_parse (JObj fs) h =
     (let (gs, h') = parse_fields fs h in (VRef (length h'), h' @ [Obj gs]))"
| "parse_elements [] h = ([], h)"
| "parse_elements (x # xs) h =
     (let (v, h1) = JSON_parse x h;
          (vs, h2) = parse_elements xs h1
      in (v # vs, h2))"
| "parse_fields [] h = ([], h)"
| "parse_fields ((p, x) # fs) h =
     (let (v, h1) = JSON_parse x h;
          (gs, h2) = parse_fields fs h1
      in ((p, v) # gs, h2))"

text \<open>Reading a property of a value that is not \<^verbatim>\<open>null\<close> or \<^verbatim>\<open>undefined\<close>, testing for an
  array, and assigning a property of an object.\<close>

definition h_prop :: "heap \<Rightarrow> val \<Rightarrow> string \<Rightarrow> val" where
  "h_prop h v p =
     (case v of
        VRef a \<Rightarrow>
          (if a < length h
           then (case h ! a of
                   Obj fs \<Rightarrow> (case map_of fs p of Some w \<Rightarrow> w | None \<Rightarrow> VUndefined)
                 | Arr vs \<Rightarrow> VUndefined)
           else VUndefined)
      | _ \<Rightarrow> VUndefined)"

definition h_isArray :: "heap \<Rightarrow> val \<Rightarrow> bool" where
  "h_isArray h v \<longleftrightarrow>
     (case v of
        VRef a \<Rightarrow> a < length h \<and> (case h ! a of Arr vs \<Rightarrow> True | Obj fs \<Rightarrow> False)
      | _ \<Rightarrow> False)"

definition h_set :: "heap \<Rightarrow> val \<Rightarrow> string \<Rightarrow> val \<Rightarrow> heap" where
  "h_set h v p w =
     (case v of
        VRef a \<Rightarrow>
          (if a < length h
           then (case h ! a of
                   Obj fs \<Rightarrow> h[a := Obj (AList.update p w fs)]
                 | Arr vs \<Rightarrow> h)
           else h)
      | _ \<Rightarrow> h)"

definition nullish :: "val \<Rightarrow> bool" where
  "nullish v \<longleftrightarrow> v = VNull \<or> v = VUndefined"

text \<open>\<^verbatim>\<open>shuffle(arr)\<close>: the argument itself when it is not an array, else a new array, the
  shuffled copy.\<close>

definition shuffle_h :: "random_source \<Rightarrow> val \<Rightarrow> heap \<Rightarrow> nat \<Rightarrow> val \<times> heap \<times> nat" where
  "shuffle_h rnd arr h k =
     (case arr of
        VRef a \<Rightarrow>
          (if a < length h
           then (case h ! a of
                   Arr vs \<Rightarrow>
                     (let (copy, k') = shuffle rnd vs k
                      in (VRef (length h), h @ [Arr copy], k'))
                 | Obj fs \<Rightarrow> (arr, h, k))
           else (arr, h, k))
      | _ \<Rightarrow> (arr, h, k))"

text \<open>
  The callbacks of \<^verbatim>\<open>map\<close> on the store return the exception or the value, with the store
  and the number of draws. \<^verbatim>\<open>arr.map(f)\<close> creates the new array, calls \<open>f\<close> on the elements
  from left to right and stores the results. It is only called on the array that
  \<^verbatim>\<open>shuffle\<close> has returned; on anything else a method call would throw.
\<close>

fun map_heap ::
  "(val \<Rightarrow> heap \<Rightarrow> nat \<Rightarrow> (error + val) \<times> heap \<times> nat) \<Rightarrow> val list \<Rightarrow> heap \<Rightarrow> nat
     \<Rightarrow> (error + val list) \<times> heap \<times> nat" where
  "map_heap f [] h k = (Inr [], h, k)"
| "map_heap f (x # xs) h k =
     (case f x h k of
        (Inl e, h', k') \<Rightarrow> (Inl e, h', k')
      | (Inr y, h', k') \<Rightarrow>
          (case map_heap f xs h' k' of
             (Inl e, h'', k'') \<Rightarrow> (Inl e, h'', k'')
           | (Inr ys, h'', k'') \<Rightarrow> (Inr (y # ys), h'', k'')))"

definition array_map ::
  "(val \<Rightarrow> heap \<Rightarrow> nat \<Rightarrow> (error + val) \<times> heap \<times> nat) \<Rightarrow> val \<Rightarrow> heap \<Rightarrow> nat
     \<Rightarrow> (error + val) \<times> heap \<times> nat" where
  "array_map f arr h k =
     (if h_isArray h arr
      then (case arr of
              VRef a \<Rightarrow>
                (let A = length h
                 in case map_heap f (cell_vals (h ! a)) (h @ [Arr []]) k of
                      (Inl e, h', k') \<Rightarrow> (Inl e, h', k')
                    | (Inr ys, h', k') \<Rightarrow> (Inr (VRef A), h'[A := Arr ys], k'))
            | _ \<Rightarrow> (Inl TypeError, h, k))
      else (Inl TypeError, h, k))"

text \<open>The two idioms \<^verbatim>\<open>if (Array.isArray(o.p)) o.p = shuffle(o.p);\<close> and
  \<^verbatim>\<open>if (Array.isArray(o.p)) { o.p = shuffle(o.p).map(f); }\<close> on the store.\<close>

definition shuffle_prop_h :: "random_source \<Rightarrow> string \<Rightarrow> val \<Rightarrow> heap \<Rightarrow> nat \<Rightarrow> heap \<times> nat" where
  "shuffle_prop_h rnd p obj h k =
     (if h_isArray h (h_prop h obj p)
      then (let (copy, h1, k1) = shuffle_h rnd (h_prop h obj p) h k
            in (h_set h1 obj p copy, k1))
      else (h, k))"

definition shuffle_map_prop_h ::
  "random_source \<Rightarrow> string \<Rightarrow> (val \<Rightarrow> heap \<Rightarrow> nat \<Rightarrow> (error + val) \<times> heap \<times> nat) \<Rightarrow> val \<Rightarrow> heap \<Rightarrow> nat
     \<Rightarrow> (error + unit) \<times> heap \<times> nat" where
  "shuffle_map_prop_h rnd p f obj h k =
     (if h_isArray h (h_prop h obj p)
      then (let (copy, h1, k1) = shuffle_h rnd (h_prop h obj p) h k
            in case array_map f copy h1 k1 of
                 (Inl e, h2, k2) \<Rightarrow> (Inl e, h2, k2)
               | (Inr mapped, h2, k2) \<Rightarrow> (Inr (), h_set h2 obj p mapped, k2))
      else (Inr (), h, k))"

definition options_cb_h :: "random_source \<Rightarrow> val \<Rightarrow> heap \<Rightarrow> nat \<Rightarrow> (error + val) \<times> heap \<times> nat" where
  "options_cb_h rnd q h k =
     (if nullish q then (Inl TypeError, h, k)
      else (let (h', k') = shuffle_prop_h rnd ''options'' q h k in (Inr q, h', k')))"

definition section_cb_h :: "random_source \<Rightarrow> val \<Rightarrow> heap \<Rightarrow> nat \<Rightarrow> (error + val) \<times> heap \<times> nat" where
  "section_cb_h rnd s h k =
     (if nullish s then (Inl TypeError, h, k)
      else
        case (if h_prop h s ''type'' = VStr ''quiz''
              then shuffle_map_prop_h rnd ''questions'' (options_cb_h rnd) s h k
              else (Inr (), h, k)) of
          (Inl e, h1, k1) \<Rightarrow> (Inl e, h1, k1)
        | (Inr u, h1, k1) \<Rightarrow>
            (let (h2, k2) = (if h_prop h1 s ''type'' = VStr ''sort''
                             then shuffle_prop_h rnd ''sortCards'' s h1 k1
                             else (h1, k1))
             in case (if h_prop h2 s ''type'' = VStr ''capital''
                      then shuffle_map_prop_h rnd ''rows'' (options_cb_h rnd) s h2 k2
                      else (Inr (), h2, k2)) of
                  (Inl e, h3, k3) \<Rightarrow> (Inl e, h3, k3)
                | (Inr u, h3, k3) \<Rightarrow> (Inr s, h3, k3)))"

definition whys_cb_h :: "random_source \<Rightarrow> val \<Rightarrow> heap \<Rightarrow> nat \<Rightarrow> (error + val) \<times> heap \<times> nat" where
  "whys_cb_h rnd o' h k =
     (if nullish o' then (Inl TypeError, h, k)
      else (let (h', k') = shuffle_prop_h rnd ''whys'' o' h k in (Inr o', h', k')))"

definition case_cb_h :: "random_source \<Rightarrow> val \<Rightarrow> heap \<Rightarrow> nat \<Rightarrow> (error + val) \<times> heap \<times> nat" where
  "case_cb_h rnd c h k =
     (if nullish c then (Inl TypeError, h, k)
      else case shuffle_map_prop_h rnd ''options'' (whys_cb_h rnd) c h k of
             (Inl e, h1, k1) \<Rightarrow> (Inl e, h1, k1)
           | (Inr u, h1, k1) \<Rightarrow> (Inr c, h1, k1))"

text \<open>
  \<^verbatim>\<open>_randomizePayload(data)\<close> on the store, in the same two parts. The result is the
  exception or the returned value, with the store after the call and the number of draws.
  The second part works on the reference \<open>result\<close> to the clone.
\<close>

definition randomize_by_type_h ::
  "random_source \<Rightarrow> val \<Rightarrow> heap \<Rightarrow> nat \<Rightarrow> (error + val) \<times> heap \<times> nat" where
  "randomize_by_type_h rnd result h0 k =
     (let type = (if truthy_v (h_prop h0 result ''game_type'')
                  then h_prop h0 result ''game_type''
                  else h_prop h0 result ''gameType'')
      in
        if type = VStr ''escape_game'' \<and> h_isArray h0 (h_prop h0 result ''sections'')
        then (case shuffle_map_prop_h rnd ''sections'' (section_cb_h rnd) result h0 k of
                (Inl e, h1, k1) \<Rightarrow> (Inl e, h1, k1)
              | (Inr u, h1, k1) \<Rightarrow> (Inr result, h1, k1))
        else if type = VStr ''matching_puzzle'' \<and> h_isArray h0 (h_prop h0 result ''sets'')
        then (let (h1, k1) = shuffle_prop_h rnd ''sets'' result h0 k in (Inr result, h1, k1))
        else if type = VStr ''sortier_spiel'' \<and> h_isArray h0 (h_prop h0 result ''cards'')
        then (let (h1, k1) = shuffle_prop_h rnd ''cards'' result h0 k;
                  (h2, k2) = shuffle_prop_h rnd ''columns'' result h1 k1
              in (Inr result, h2, k2))
        else if type = VStr ''quick_quiz'' \<and> h_isArray h0 (h_prop h0 result ''questions'')
        then (let (h1, k1) = shuffle_prop_h rnd ''questions'' result h0 k;
                  (h2, k2) = shuffle_prop_h rnd ''answerLabels'' result h1 k1
              in (Inr result, h2, k2))
        else if type = VStr ''wer_bin_ich''
        then (let (h1, k1) = shuffle_prop_h rnd ''legalForms'' result h0 k;
                  (h2, k2) = shuffle_prop_h rnd ''questions'' result h1 k1
              in (Inr result, h2, k2))
        else if type = VStr ''what_and_why'' \<and> h_isArray h0 (h_prop h0 result ''cases'')
        then (case shuffle_map_prop_h rnd ''cases'' (case_cb_h rnd) result h0 k of
                (Inl e, h1, k1) \<Rightarrow> (Inl e, h1, k1)
              | (Inr u, h1, k1) \<Rightarrow> (Inr result, h1, k1))
        else (Inr result, h0, k))"

text \<open>The first part: the guard and the deep clone, which throws on a cyclic structure.\<close>

definition randomizePayload_h ::
  "random_source \<Rightarrow> val \<Rightarrow> heap \<Rightarrow> nat \<Rightarrow> (error + val) \<times> heap \<times> nat" where
  "randomizePayload_h rnd data h k =
     (if \<not> truthy_v data \<or> \<not> typeof_object_v data then (Inr data, h, k)
      else
        case JSON_stringify h data of
          None \<Rightarrow> (Inl TypeError, h, k)
        | Some j \<Rightarrow>
            (let (result, h0) = JSON_parse j h
             in randomize_by_type_h rnd result h0 k))"

text \<open>The addresses reachable from a value.\<close>

inductive_set reach :: "heap \<Rightarrow> val \<Rightarrow> addr set" for h :: heap and v :: val where
  start: "v = VRef a \<Longrightarrow> a \<in> reach h v"
| step: "b \<in> reach h v \<Longrightarrow> b < length h \<Longrightarrow> VRef c \<in> set (cell_vals (h ! b)) \<Longrightarrow> c \<in> reach h v"

text \<open>An example store: the matching puzzle as \<^verbatim>\<open>JSON.parse\<close> builds it in the empty store.\<close>

definition puzzle_heap :: heap where
  "puzzle_heap = snd (JSON_parse puzzle_example [])"

definition puzzle_ref :: val where
  "puzzle_ref = fst (JSON_parse puzzle_example [])"





text \<open>The values that \<^verbatim>\<open>currentPath\<close> takes during the walk of the parts of one path.\<close>

fun joins :: "string \<Rightarrow> string list \<Rightarrow> string list" where
  "joins cur [] = []"
| "joins cur (part # parts) =
     (let c = (if cur \<noteq> [] then cur @ ''/'' @ part else part) in c # joins c parts)"

definition path_keys :: "string \<Rightarrow> string list" where
  "path_keys p = joins [] (split_on CHR ''/'' p)"

text \<open>
  The two loops as one sequence of steps. A step is one call of the inner callback: the
  entry it belongs to, whether its part is the last one of the path, and the values of
  \<^verbatim>\<open>parentPath\<close>, \<^verbatim>\<open>currentPath\<close> and \<^verbatim>\<open>part\<close>, which depend on the path alone.
\<close>

record touch =
  t_entry :: flat_entry
  t_last :: bool
  t_parent :: string
  t_key :: string
  t_part :: string

fun touches :: "flat_entry \<Rightarrow> nat \<Rightarrow> nat \<Rightarrow> string \<Rightarrow> string list \<Rightarrow> touch list" where
  "touches n len i cur [] = []"
| "touches n len i cur (part # parts) =
     (let c = (if cur \<noteq> [] then cur @ ''/'' @ part else part)
      in \<lparr>t_entry = n, t_last = (\<not> i < len - 1), t_parent = cur, t_key = c, t_part = part\<rparr>
           # touches n len (Suc i) c parts)"

definition entry_touches :: "flat_entry \<Rightarrow> touch list" where
  "entry_touches n =
     (let parts = split_on CHR ''/'' (entry_path n) in touches n (length parts) 0 [] parts)"

text \<open>What a step does to the table.\<close>

definition touch_table :: "touch \<Rightarrow> lookup \<Rightarrow> error + lookup" where
  "touch_table t m =
     (if \<not> in_table m (t_key t)
      then
        let isFolder = (entry_type (t_entry t) = ''tree'' \<or> \<not> t_last t);
            node = (if isFolder then Made (t_key t) (t_part t) True None (Some [])
                    else Made (t_key t) (t_part t) False (flat_kind (t_part t)) None);
            m = m @ [(t_key t, node)]
        in if in_table m (t_parent t) then push_child m (t_parent t) (t_key t) else Inr m
      else Inr m)"

text \<open>The children that a value of the table holds.\<close>

fun kids :: "mapped \<Rightarrow> string list" where
  "kids (Holder ks) = ks"
| "kids (Made i nm fo kd None) = []"
| "kids (Made i nm fo kd (Some ks)) = ks"

text \<open>\<open>child_of p c\<close>: the key \<open>c\<close> is the key \<open>p\<close> followed by a slash and one part.\<close>

definition child_of :: "string \<Rightarrow> string \<Rightarrow> bool" where
  "child_of p c \<longleftrightarrow> (\<exists>part. c = p @ ''/'' @ part \<and> CHR ''/'' \<notin> set part)"

text \<open>
  The invariant of the table, for the steps \<open>T\<close> made so far. \<open>created T k nm fo\<close>: the
  first step of \<open>T\<close> with the key \<open>k\<close> has the part \<open>nm\<close>, and \<open>fo\<close> tells whether
  its entry is a tree or its part is not the last one.
\<close>

definition created :: "touch list \<Rightarrow> string \<Rightarrow> string \<Rightarrow> bool \<Rightarrow> bool" where
  "created T k nm fo \<longleftrightarrow>
     (\<exists>T1 t T2. T = T1 @ t # T2 \<and> t_key t = k \<and> (\<forall>t' \<in> set T1. t_key t' \<noteq> k) \<and>
        nm = t_part t \<and> fo = (entry_type (t_entry t) = ''tree'' \<or> \<not> t_last t))"

definition under_db :: "string \<Rightarrow> bool" where
  "under_db k \<longleftrightarrow> (\<exists>r. k = ''database/'' @ r)"

definition has_parent :: "lookup \<Rightarrow> string \<Rightarrow> bool" where
  "has_parent m k \<longleftrightarrow> (\<exists>p w. map_of m p = Some w \<and> k \<in> set (kids w))"

definition kids_ok :: "lookup \<Rightarrow> string \<Rightarrow> mapped \<Rightarrow> bool" where
  "kids_ok m k v \<longleftrightarrow>
     distinct (kids v) \<and> (\<forall>c \<in> set (kids v). child_of k c \<and> map_of m c \<noteq> None)"

definition entry_ok :: "touch list \<Rightarrow> lookup \<Rightarrow> string \<Rightarrow> mapped \<Rightarrow> bool" where
  "entry_ok T m k v \<longleftrightarrow>
     kids_ok m k v \<and>
     (case v of
        Holder ks \<Rightarrow> k = ''database''
      | Made i nm fo kd ch \<Rightarrow>
          i = k \<and> under_db k \<and>
          kd = (if fo then None else flat_kind nm) \<and> (fo \<longleftrightarrow> ch \<noteq> None) \<and>
          created T k nm fo \<and> has_parent m k)"

definition table_inv :: "touch list \<Rightarrow> lookup \<Rightarrow> bool" where
  "table_inv T m \<longleftrightarrow>
     distinct (map fst m) \<and>
     (\<exists>ks. map_of m ''database'' = Some (Holder ks)) \<and>
     (\<forall>k v. map_of m k = Some v \<longrightarrow> entry_ok T m k v) \<and>
     (\<forall>t \<in> set T. map_of m (t_key t) \<noteq> None)"

text \<open>A sequence of steps is chained from the key \<open>prev\<close> when each step either starts a
  path at \<^verbatim>\<open>database\<close> or goes one part down from the key of the step before.\<close>

fun chained :: "string \<Rightarrow> touch list \<Rightarrow> bool" where
  "chained prev [] = True"
| "chained prev (t # ts) \<longleftrightarrow>
     (t_key t = ''database'' \<or>
      (t_parent t = prev \<and> t_key t = prev @ ''/'' @ t_part t \<and> CHR ''/'' \<notin> set (t_part t))) \<and>
     chained (t_key t) ts"

text \<open>\<open>below k x\<close>: the key \<open>x\<close> is \<open>k\<close> or lies under it.\<close>

definition below :: "string \<Rightarrow> string \<Rightarrow> bool" where
  "below k x \<longleftrightarrow> x = k \<or> (\<exists>r. x = k @ ''/'' @ r)"

text \<open>The ids of a node and of the nodes under it.\<close>

definition ids :: "node \<Rightarrow> string list" where
  "ids nd = map node_id (all_nodes nd)"

text \<open>
  The classification in the words of the specification, for a listing \<open>L\<close> and a path
  \<open>k\<close>: \<open>inner_key L k\<close> when \<open>k\<close> ends at a part that is not the last one of some path of
  \<open>L\<close>, and \<open>tree_entry L k\<close> when the first entry of \<open>L\<close> with the path \<open>k\<close> is a tree.
\<close>

definition inner_key :: "flat_entry list \<Rightarrow> string \<Rightarrow> bool" where
  "inner_key L k \<longleftrightarrow> (\<exists>e \<in> set L. k \<in> set (butlast (path_keys (entry_path e))))"

definition tree_entry :: "flat_entry list \<Rightarrow> string \<Rightarrow> bool" where
  "tree_entry L k \<longleftrightarrow>
     (case find (\<lambda>e. entry_path e = k) L of Some e \<Rightarrow> entry_type e = ''tree'' | None \<Rightarrow> False)"

text \<open>
  The extension by which the specification assigns the kind, as in the local builder, is
  \<open>extname\<close>. \<open>after_last c s\<close> is the text after the last \<open>c\<close> in \<open>s\<close>, and all of \<open>s\<close> when
  \<open>c\<close> is not in it.
\<close>

definition after_last :: "char \<Rightarrow> string \<Rightarrow> string" where
  "after_last c s = rev (takeWhile (\<lambda>x. x \<noteq> c) (rev s))"

text \<open>A listing with a folder, listed after a file in it, and its tree; a listing with a
  file whose name has no extension.\<close>

definition nested_listing :: "flat_entry list" where
  "nested_listing =
     [\<lparr>entry_path = ''README.md'', entry_type = ''blob''\<rparr>,
      \<lparr>entry_path = ''database/a/x.json'', entry_type = ''blob''\<rparr>,
      \<lparr>entry_path = ''database/a'', entry_type = ''tree''\<rparr>,
      \<lparr>entry_path = ''database/b.pdf'', entry_type = ''blob''\<rparr>,
      \<lparr>entry_path = ''database/S.PPT'', entry_type = ''blob''\<rparr>]"

definition nested_tree :: "node list" where
  "nested_tree =
     [Node ''database/a'' ''a'' True None
        (Some [Node ''database/a/x.json'' ''x.json'' False (Some ''json'') None None]) None,
      Node ''database/b.pdf'' ''b.pdf'' False (Some ''pdf'') None None,
      Node ''database/S.PPT'' ''S.PPT'' False (Some ''pptx'') None None]"

definition dotless_listing :: "flat_entry list" where
  "dotless_listing = [\<lparr>entry_path = ''database/pdf'', entry_type = ''blob''\<rparr>]"

text \<open>A table is ordered when every node stands before the nodes of its children.\<close>

fun ordered :: "lookup \<Rightarrow> bool" where
  "ordered [] = True"
| "ordered ((k, v) # rest) \<longleftrightarrow> set (kids v) \<subseteq> fst ` set rest \<and> ordered rest"

text \<open>
  The listings on which the builder throws. \<open>file_first L k\<close>: the first path of \<open>L\<close> that
  goes through the key \<open>k\<close> is \<open>k\<close> itself, the path of an entry that is not a tree, so
  that the node of \<open>k\<close> is made without \<^verbatim>\<open>children\<close>. \<open>clash L\<close>: some path of \<open>L\<close> goes on
  below such a key.
\<close>

definition file_first :: "flat_entry list \<Rightarrow> string \<Rightarrow> bool" where
  "file_first L k \<longleftrightarrow>
     (case find (\<lambda>e. k \<in> set (path_keys (entry_path e))) L of
        Some e \<Rightarrow> entry_path e = k \<and> entry_type e \<noteq> ''tree''
      | None \<Rightarrow> False)"

definition clash :: "flat_entry list \<Rightarrow> bool" where
  "clash L \<longleftrightarrow> (\<exists>e \<in> set L. \<exists>k \<in> set (butlast (path_keys (entry_path e))). file_first L k)"

definition clash_listing :: "flat_entry list" where
  "clash_listing =
     [\<lparr>entry_path = ''database/a'', entry_type = ''blob''\<rparr>,
      \<lparr>entry_path = ''database/a/x.json'', entry_type = ''blob''\<rparr>]"
section \<open>Properties of the random source and the shuffle\<close>

lemma random_index_less: "0 < n \<Longrightarrow> random_index rnd k n < n"
proof -
  assume n: "0 < n"
  have r: "0 \<le> Rep_unit_real (rnd k)" "Rep_unit_real (rnd k) < 1"
    using Rep_unit_real [of "rnd k"] by auto
  have "Rep_unit_real (rnd k) * real n < real n"
    using r n by simp
  then have "\<lfloor>Rep_unit_real (rnd k) * real n\<rfloor> < int n"
    by (simp add: floor_less_iff)
  then show ?thesis
    using n unfolding random_index_def by linarith
qed


lemma shuffle_loop_mset:
  "i \<le> length xs - 1 \<Longrightarrow> mset (fst (shuffle_loop rnd i k xs)) = mset xs"
proof (induction i arbitrary: k xs)
  case 0
  then show ?case by simp
next
  case (Suc i)
  let ?j = "random_index rnd k (Suc i + 1)"
  have i: "Suc i < length xs" using Suc.prems by simp
  have "?j < Suc i + 1" by (rule random_index_less) simp
  then have j: "?j < length xs" using i by simp
  let ?ys = "(xs[Suc i := xs ! ?j])[?j := xs ! Suc i]"
  have sw: "mset ?ys = mset xs" using mset_swap [OF j i] by simp
  have "i \<le> length ?ys - 1" using i by simp
  then have "mset (fst (shuffle_loop rnd i (Suc k) ?ys)) = mset ?ys" by (rule Suc.IH)
  then show ?case using sw by (simp add: Let_def)
qed

lemma shuffle_loop_draws: "snd (shuffle_loop rnd i k xs) = k + i"
  by (induction i arbitrary: k xs) (simp_all add: Let_def)

lemma shuffle_mset: "mset (fst (shuffle rnd xs k)) = mset xs"
  unfolding shuffle_def by (rule shuffle_loop_mset) simp

lemma shuffle_single: "shuffle rnd [x] k = ([x], k)"
  by (simp add: shuffle_def)

lemma shuffle_nil: "shuffle rnd [] k = ([], k)"
  by (simp add: shuffle_def)

lemma map_rand_total:
  assumes "\<And>x k. x \<in> set xs \<Longrightarrow> x \<noteq> JNull \<and> P x \<Longrightarrow> \<exists>y k'. f x k = Inr (y, k') \<and> R x y"
    and "list_all (\<lambda>x. x \<noteq> JNull \<and> P x) xs"
  shows "\<exists>ys k'. map_rand f xs k = Inr (ys, k') \<and> list_all2 R xs ys"
  using assms
proof (induction xs arbitrary: k)
  case Nil
  then show ?case by simp
next
  case (Cons x xs)
  from Cons.prems obtain y k1 where y: "f x k = Inr (y, k1)" "R x y"
    by (fastforce)
  have "\<exists>ys k'. map_rand f xs k1 = Inr (ys, k') \<and> list_all2 R xs ys"
    using Cons.prems by (intro Cons.IH) auto
  then obtain ys k2 where ys: "map_rand f xs k1 = Inr (ys, k2)" "list_all2 R xs ys" by blast
  show ?case using y ys by simp
qed

lemma get_prop_Some_obj: "get_prop obj p = Some v \<Longrightarrow> \<exists>fs. obj = JObj fs \<and> map_of fs p = Some v"
  by (cases obj) simp_all

lemma same_outside_refl: "same_outside ps a a"
  by (cases a) (simp_all add: same_outside_def)

lemma same_outside_set_prop:
  assumes "get_prop obj p = Some v"
  shows "same_outside {p} obj (set_prop obj p w)"
proof -
  from assms obtain fs where fs: "obj = JObj fs" "map_of fs p = Some v"
    using get_prop_Some_obj by blast
  then have "p \<in> set (map fst fs)" by (metis map_of_eq_None_iff option.distinct(1) set_map)
  then have "map fst (AList.update p w fs) = map fst fs" by (simp add: update_keys)
  then show ?thesis using fs by (simp add: same_outside_def update_conv')
qed

lemma get_set_prop: "get_prop obj p = Some v \<Longrightarrow> get_prop (set_prop obj p w) p = Some w"
  by (cases obj) (simp_all add: update_conv')

lemma same_outside_get_prop: "same_outside ps a b \<Longrightarrow> p \<notin> ps \<Longrightarrow> get_prop b p = get_prop a p"
  by (cases a) (auto simp add: same_outside_def)

lemma same_outside_trans:
  "same_outside ps a b \<Longrightarrow> same_outside qs b c \<Longrightarrow> same_outside (ps \<union> qs) a c"
  by (cases a) (auto simp add: same_outside_def)

lemma perm_upto_eq: "mset ys = mset xs \<Longrightarrow> perm_upto (=) xs ys"
  unfolding perm_upto_def by (rule exI [of _ ys]) (simp add: list.rel_eq)

lemma shuffle_prop_spec:
  "same_outside {p} obj (fst (shuffle_prop rnd p obj k)) \<and>
   target (=) p obj (fst (shuffle_prop rnd p obj k))"
proof (cases "\<exists>arr. get_prop obj p = Some (JArr arr)")
  case True
  then obtain arr where arr: "get_prop obj p = Some (JArr arr)" by blast
  obtain ys k' where s: "shuffle rnd arr k = (ys, k')" by (cases "shuffle rnd arr k")
  then have m: "mset ys = mset arr" using shuffle_mset [of rnd arr k] by simp
  have r: "shuffle_prop rnd p obj k = (set_prop obj p (JArr ys), k')"
    using arr s by (simp add: shuffle_prop_def)
  show ?thesis
    using arr m by (simp add: r same_outside_set_prop target_def get_set_prop perm_upto_eq)
next
  case False
  then have "shuffle_prop rnd p obj k = (obj, k)"
    by (auto simp add: shuffle_prop_def split: option.splits json.splits)
  moreover have "target (=) p obj obj"
    using False by (auto simp add: target_def split: option.splits json.splits)
  ultimately show ?thesis by (simp add: same_outside_refl)
qed

lemma shuffle_map_prop_spec:
  assumes ok: "elems_ok P p obj"
    and f: "\<And>x k. x \<noteq> JNull \<and> P x \<Longrightarrow> \<exists>y k'. f x k = Inr (y, k') \<and> R x y"
  shows "\<exists>obj' k'. shuffle_map_prop rnd p f obj k = Inr (obj', k') \<and>
           same_outside {p} obj obj' \<and> target R p obj obj'"
proof (cases "\<exists>arr. get_prop obj p = Some (JArr arr)")
  case True
  then obtain arr where arr: "get_prop obj p = Some (JArr arr)" by blast
  obtain ys k1 where s: "shuffle rnd arr k = (ys, k1)" by (cases "shuffle rnd arr k")
  then have m: "mset ys = mset arr" using shuffle_mset [of rnd arr k] by simp
  have "list_all (\<lambda>x. x \<noteq> JNull \<and> P x) arr" using ok arr by (simp add: elems_ok_def)
  then have "list_all (\<lambda>x. x \<noteq> JNull \<and> P x) ys"
    using mset_eq_setD [OF m] by (simp add: list_all_iff)
  then have "\<exists>zs k'. map_rand f ys k1 = Inr (zs, k') \<and> list_all2 R ys zs"
    using f by (intro map_rand_total) auto
  then obtain zs k2 where zs: "map_rand f ys k1 = Inr (zs, k2)" "list_all2 R ys zs" by blast
  have r: "shuffle_map_prop rnd p f obj k = Inr (set_prop obj p (JArr zs), k2)"
    using arr s zs by (simp add: shuffle_map_prop_def)
  have "perm_upto R arr zs" unfolding perm_upto_def using m zs by blast
  then show ?thesis
    using arr by (simp add: r same_outside_set_prop target_def get_set_prop)
next
  case False
  then have "shuffle_map_prop rnd p f obj k = Inr (obj, k)"
    by (auto simp add: shuffle_map_prop_def split: option.splits json.splits)
  moreover have "target R p obj obj"
    using False by (auto simp add: target_def split: option.splits json.splits)
  ultimately show ?thesis by (simp add: same_outside_refl)
qed


lemma target_cong:
  "get_prop a' p = get_prop a p \<Longrightarrow> get_prop b' p = get_prop b p \<Longrightarrow> target R p a b \<Longrightarrow> target R p a' b'"
  by (auto simp add: target_def split: option.splits json.splits)

lemma target_eq_refl: "target (=) p a a"
  by (auto simp add: target_def perm_upto_eq split: option.splits json.splits)

lemma target_not_array: "\<not> is_array (get_prop a p) \<Longrightarrow> target R p a a"
  by (auto simp add: target_def split: option.splits json.splits)

lemma options_cb_spec:
  "q \<noteq> JNull \<Longrightarrow> \<exists>y k'. options_cb rnd q k = Inr (y, k') \<and> options_spec q y"
  using shuffle_prop_spec [of "''options''" q rnd k]
  by (cases "shuffle_prop rnd ''options'' q k") (simp add: options_cb_def options_spec_def)

lemma whys_cb_spec:
  "q \<noteq> JNull \<Longrightarrow> \<exists>y k'. whys_cb rnd q k = Inr (y, k') \<and> whys_spec q y"
  using shuffle_prop_spec [of "''whys''" q rnd k]
  by (cases "shuffle_prop rnd ''whys'' q k") (simp add: whys_cb_def whys_spec_def)

lemma case_cb_spec:
  assumes "c \<noteq> JNull \<and> elems_ok (\<lambda>o'. True) ''options'' c"
  shows "\<exists>y k'. case_cb rnd c k = Inr (y, k') \<and> case_spec c y"
proof -
  have "elems_ok (\<lambda>o'. True) ''options'' c" using assms by simp
  then have "\<exists>obj' k'. shuffle_map_prop rnd ''options'' (whys_cb rnd) c k = Inr (obj', k') \<and>
           same_outside {''options''} c obj' \<and> target whys_spec ''options'' c obj'"
  proof (rule shuffle_map_prop_spec [where P = "\<lambda>o'. True"])
    fix x k assume "x \<noteq> JNull \<and> (\<lambda>o'. True) x"
    then show "\<exists>y k'. whys_cb rnd x k = Inr (y, k') \<and> whys_spec x y"
      using whys_cb_spec by simp
  qed
  then show ?thesis using assms by (simp add: case_cb_def case_spec_def)
qed

lemma section_cb_spec:
  assumes "s \<noteq> JNull \<and> section_ok s"
  shows "\<exists>y k'. section_cb rnd s k = Inr (y, k') \<and> section_spec s y"
proof -
  consider (quiz) "get_prop s ''type'' = Some (JStr ''quiz'')"
    | (sort) "get_prop s ''type'' = Some (JStr ''sort'')"
    | (capital) "get_prop s ''type'' = Some (JStr ''capital'')"
    | (other) "get_prop s ''type'' \<noteq> Some (JStr ''quiz'')" "get_prop s ''type'' \<noteq> Some (JStr ''sort'')"
        "get_prop s ''type'' \<noteq> Some (JStr ''capital'')"
    by blast
  then show ?thesis
  proof cases
    case quiz
    have "elems_ok (\<lambda>q. True) ''questions'' s" using assms quiz by (simp add: section_ok_def)
    then have "\<exists>obj' k'. shuffle_map_prop rnd ''questions'' (options_cb rnd) s k = Inr (obj', k') \<and>
           same_outside {''questions''} s obj' \<and> target options_spec ''questions'' s obj'"
    proof (rule shuffle_map_prop_spec [where P = "\<lambda>q. True"])
    fix x k assume "x \<noteq> JNull \<and> (\<lambda>q. True) x"
    then show "\<exists>y k'. options_cb rnd x k = Inr (y, k') \<and> options_spec x y"
      using options_cb_spec by simp
  qed
    then obtain s1 k1 where s1: "shuffle_map_prop rnd ''questions'' (options_cb rnd) s k = Inr (s1, k1)"
      "same_outside {''questions''} s s1" "target options_spec ''questions'' s s1" by blast
    have t: "get_prop s1 ''type'' = Some (JStr ''quiz'')"
      using same_outside_get_prop [OF s1(2), of "''type''"] quiz by simp
    have "section_cb rnd s k = Inr (s1, k1)"
      using assms quiz s1(1) t by (simp add: section_cb_def)
    then show ?thesis using s1 quiz by (simp add: section_spec_def)
  next
    case sort
    obtain s2 k2 where s2: "shuffle_prop rnd ''sortCards'' s k = (s2, k2)"
      by (cases "shuffle_prop rnd ''sortCards'' s k")
    have sp: "same_outside {''sortCards''} s s2" "target (=) ''sortCards'' s s2"
      using shuffle_prop_spec [of "''sortCards''" s rnd k] s2 by simp_all
    have t: "get_prop s2 ''type'' = Some (JStr ''sort'')"
      using same_outside_get_prop [OF sp(1), of "''type''"] sort by simp
    have "section_cb rnd s k = Inr (s2, k2)"
      using assms sort s2 t by (simp add: section_cb_def)
    then show ?thesis using sp sort by (simp add: section_spec_def)
  next
    case capital
    have "elems_ok (\<lambda>q. True) ''rows'' s" using assms capital by (simp add: section_ok_def)
    then have "\<exists>obj' k'. shuffle_map_prop rnd ''rows'' (options_cb rnd) s k = Inr (obj', k') \<and>
           same_outside {''rows''} s obj' \<and> target options_spec ''rows'' s obj'"
    proof (rule shuffle_map_prop_spec [where P = "\<lambda>q. True"])
    fix x k assume "x \<noteq> JNull \<and> (\<lambda>q. True) x"
    then show "\<exists>y k'. options_cb rnd x k = Inr (y, k') \<and> options_spec x y"
      using options_cb_spec by simp
  qed
    then obtain s1 k1 where s1: "shuffle_map_prop rnd ''rows'' (options_cb rnd) s k = Inr (s1, k1)"
      "same_outside {''rows''} s s1" "target options_spec ''rows'' s s1" by blast
    have "section_cb rnd s k = Inr (s1, k1)"
      using assms capital s1(1) by (simp add: section_cb_def)
    then show ?thesis using s1 capital by (simp add: section_spec_def)
  next
    case other
    then have "section_cb rnd s k = Inr (s, k)"
      using assms by (simp add: section_cb_def)
    then show ?thesis using other by (simp add: section_spec_def)
  qed
qed

lemma shuffle_prop_twice_spec:
  assumes "p \<noteq> q" and r1: "shuffle_prop rnd p d k = (r1, k1)"
    and r2: "shuffle_prop rnd q r1 k1 = (r2, k2)"
  shows "same_outside {p, q} d r2 \<and> target (=) p d r2 \<and> target (=) q d r2"
proof -
  have a: "same_outside {p} d r1" "target (=) p d r1"
    using shuffle_prop_spec [of p d rnd k] r1 by simp_all
  have b: "same_outside {q} r1 r2" "target (=) q r1 r2"
    using shuffle_prop_spec [of q r1 rnd k1] r2 by simp_all
  have "same_outside ({p} \<union> {q}) d r2" using a(1) b(1) by (rule same_outside_trans)
  then have 1: "same_outside {p, q} d r2" by (simp add: insert_commute)
  have "get_prop r2 p = get_prop r1 p" using b(1) assms(1) by (intro same_outside_get_prop) auto
  then have 2: "target (=) p d r2" using a(2) by (intro target_cong [of d p d r2 r1]) simp_all
  have "get_prop r1 q = get_prop d q" using a(1) assms(1) by (intro same_outside_get_prop) auto
  then have 3: "target (=) q d r2" using b(2) by (intro target_cong [of d q r1 r2 r2]) simp_all
  show ?thesis using 1 2 3 by simp
qed

lemma primitive_game_type: "\<not> truthy d \<or> \<not> typeof_object d \<Longrightarrow> game_type_of d = None"
  by (cases d) (simp_all add: game_type_of_def)

lemma randomize_by_type_spec:
  assumes ok: "payload_ok d"
  shows "\<exists>d' k'. randomize_by_type rnd d k = Inr (d', k') \<and> payload_spec d d'"
proof (cases "\<not> truthy d \<or> \<not> typeof_object d")
  case True
  then show ?thesis
    using primitive_game_type [OF True] by (simp add: randomize_by_type_def payload_spec_def)
next
  case False
  let ?t = "game_type_of d"
  consider (escape) "?t = Some (JStr ''escape_game'')" "is_array (get_prop d ''sections'')"
    | (matching) "?t = Some (JStr ''matching_puzzle'')" "is_array (get_prop d ''sets'')"
    | (sortier) "?t = Some (JStr ''sortier_spiel'')" "is_array (get_prop d ''cards'')"
    | (quick) "?t = Some (JStr ''quick_quiz'')" "is_array (get_prop d ''questions'')"
    | (wer) "?t = Some (JStr ''wer_bin_ich'')"
    | (what) "?t = Some (JStr ''what_and_why'')" "is_array (get_prop d ''cases'')"
    | (none) "\<not> (?t = Some (JStr ''escape_game'') \<and> is_array (get_prop d ''sections''))"
        "\<not> (?t = Some (JStr ''matching_puzzle'') \<and> is_array (get_prop d ''sets''))"
        "\<not> (?t = Some (JStr ''sortier_spiel'') \<and> is_array (get_prop d ''cards''))"
        "\<not> (?t = Some (JStr ''quick_quiz'') \<and> is_array (get_prop d ''questions''))"
        "?t \<noteq> Some (JStr ''wer_bin_ich'')"
        "\<not> (?t = Some (JStr ''what_and_why'') \<and> is_array (get_prop d ''cases''))"
    by blast
  then show ?thesis
  proof cases
    case escape
    have "elems_ok section_ok ''sections'' d" using ok escape by (simp add: payload_ok_def)
    then have "\<exists>obj' k'. shuffle_map_prop rnd ''sections'' (section_cb rnd) d k = Inr (obj', k') \<and>
           same_outside {''sections''} d obj' \<and> target section_spec ''sections'' d obj'"
    proof (rule shuffle_map_prop_spec [where P = section_ok])
    fix x k assume "x \<noteq> JNull \<and> (section_ok) x"
    then show "\<exists>y k'. section_cb rnd x k = Inr (y, k') \<and> section_spec x y"
      using section_cb_spec by simp
  qed
    then show ?thesis using False escape by (simp add: randomize_by_type_def payload_spec_def)
  next
    case matching
    obtain r k1 where r: "shuffle_prop rnd ''sets'' d k = (r, k1)"
      by (cases "shuffle_prop rnd ''sets'' d k")
    then show ?thesis
      using False matching shuffle_prop_spec [of "''sets''" d rnd k]
      by (simp add: randomize_by_type_def payload_spec_def)
  next
    case sortier
    obtain r1 k1 where r1: "shuffle_prop rnd ''cards'' d k = (r1, k1)"
      by (cases "shuffle_prop rnd ''cards'' d k")
    obtain r2 k2 where r2: "shuffle_prop rnd ''columns'' r1 k1 = (r2, k2)"
      by (cases "shuffle_prop rnd ''columns'' r1 k1")
    have "same_outside {''cards'', ''columns''} d r2 \<and> target (=) ''cards'' d r2 \<and> target (=) ''columns'' d r2"
      using r1 r2 by (intro shuffle_prop_twice_spec) simp_all
    then show ?thesis
      using False sortier r1 r2 by (simp add: randomize_by_type_def payload_spec_def)
  next
    case quick
    obtain r1 k1 where r1: "shuffle_prop rnd ''questions'' d k = (r1, k1)"
      by (cases "shuffle_prop rnd ''questions'' d k")
    obtain r2 k2 where r2: "shuffle_prop rnd ''answerLabels'' r1 k1 = (r2, k2)"
      by (cases "shuffle_prop rnd ''answerLabels'' r1 k1")
    have "same_outside {''questions'', ''answerLabels''} d r2 \<and> target (=) ''questions'' d r2 \<and> target (=) ''answerLabels'' d r2"
      using r1 r2 by (intro shuffle_prop_twice_spec) simp_all
    then show ?thesis
      using False quick r1 r2 by (simp add: randomize_by_type_def payload_spec_def)
  next
    case wer
    obtain r1 k1 where r1: "shuffle_prop rnd ''legalForms'' d k = (r1, k1)"
      by (cases "shuffle_prop rnd ''legalForms'' d k")
    obtain r2 k2 where r2: "shuffle_prop rnd ''questions'' r1 k1 = (r2, k2)"
      by (cases "shuffle_prop rnd ''questions'' r1 k1")
    have "same_outside {''legalForms'', ''questions''} d r2 \<and> target (=) ''legalForms'' d r2 \<and> target (=) ''questions'' d r2"
      using r1 r2 by (intro shuffle_prop_twice_spec) simp_all
    then show ?thesis
      using False wer r1 r2 by (simp add: randomize_by_type_def payload_spec_def)
  next
    case what
    have "elems_ok (elems_ok (\<lambda>o'. True) ''options'') ''cases'' d" using ok what by (simp add: payload_ok_def)
    then have "\<exists>obj' k'. shuffle_map_prop rnd ''cases'' (case_cb rnd) d k = Inr (obj', k') \<and>
           same_outside {''cases''} d obj' \<and> target case_spec ''cases'' d obj'"
    proof (rule shuffle_map_prop_spec [where P = "elems_ok (\<lambda>o'. True) ''options''"])
    fix x k assume "x \<noteq> JNull \<and> (elems_ok (\<lambda>o'. True) ''options'') x"
    then show "\<exists>y k'. case_cb rnd x k = Inr (y, k') \<and> case_spec x y"
      using case_cb_spec by simp
  qed
    then show ?thesis using False what by (simp add: randomize_by_type_def payload_spec_def)
  next
    case none
    then have r: "randomize_by_type rnd d k = Inr (d, k)"
      using False by (auto simp add: randomize_by_type_def Let_def)
    have "payload_spec d d"
      using none by (auto simp add: payload_spec_def Let_def same_outside_refl target_eq_refl target_not_array)
    then show ?thesis using r by simp
  qed
qed


section \<open>Randomization preserves values\<close>

lemma clone_plain: "plain d \<Longrightarrow> clone d = d"
proof (induction d)
  case (JNum x)
  then show ?case by (cases x) simp_all
next
  case (JArr xs)
  then have "map clone xs = xs" by (induction xs) simp_all
  then show ?case by simp
next
  case (JObj fs)
  have "map (\<lambda>(p, v). (p, clone v)) fs = fs"
    using JObj
  proof (induction fs)
    case Nil
    then show ?case by simp
  next
    case (Cons f fs)
    obtain p v where f: "f = (p, v)" by (cases f)
    have "clone v = v" using Cons.prems f by (fastforce intro: Cons.prems(1))
    moreover have "map (\<lambda>(p, v). (p, clone v)) fs = fs"
      using Cons.prems by (intro Cons.IH) auto
    ultimately show ?case using f by simp
  qed
  then show ?case by simp
qed simp_all

lemma quiz_example_run:
  "randomizePayload rnd quiz_example k =
     Inr (JObj [(''game_type'', JStr ''escape_game''),
           (''sections'', JArr [JObj [(''type'', JStr ''quiz''),
              (''questions'', JArr [JObj [(''options'',
                  JArr (fst (shuffle rnd [JStr ''A'', JStr ''B'', JStr ''C''] k)))]])]])],
          snd (shuffle rnd [JStr ''A'', JStr ''B'', JStr ''C''] k))"
  by (simp add: quiz_example_def randomizePayload_def randomize_by_type_def game_type_of_def
      shuffle_map_prop_def shuffle_prop_def section_cb_def options_cb_def shuffle_single Let_def
      split: prod.splits)

text \<open>
  Claim C3, as amended. \<^verbatim>\<open>_randomizePayload\<close> returns a value that is not an object as it
  is. On an object it works on the JSON round trip \<open>clone d\<close> of the payload \<open>d\<close>, in which a
  number that is not finite is \<^verbatim>\<open>null\<close> and \<^verbatim>\<open>-0\<close> is \<^verbatim>\<open>0\<close>; a payload without such numbers
  is its own round trip. When no element that is dereferenced is \<^verbatim>\<open>null\<close> in the round trip
  (\<open>payload_ok\<close>: the sections of an escape game, the questions of a quiz section, the rows
  of a capital section, the cases of \<^verbatim>\<open>what_and_why\<close> and the options of a case), then for
  every content type and every random source \<^verbatim>\<open>_randomizePayload\<close> returns, each array it
  shuffles is in the output a permutation of the array of the round trip, up to the
  shuffles inside its elements, and every field outside the shuffle table is the one of
  the round trip. In particular the escape game with one quiz section and one question
  with options A, B, C yields exactly one quiz section with exactly one question, whose
  options are a permutation of A, B, C.
\<close>

theorem randomize_value_preservation:
  "(\<not> truthy d \<or> \<not> typeof_object d \<longrightarrow> randomizePayload rnd d k = Inr (d, k)) \<and>
   (truthy d \<and> typeof_object d \<and> payload_ok (clone d) \<longrightarrow>
      (\<exists>d' k'. randomizePayload rnd d k = Inr (d', k') \<and> payload_spec (clone d) d')) \<and>
   (plain d \<longrightarrow> clone d = d) \<and>
   (\<exists>ys k'. randomizePayload rnd quiz_example k =
       Inr (JObj [(''game_type'', JStr ''escape_game''),
             (''sections'', JArr [JObj [(''type'', JStr ''quiz''),
                (''questions'', JArr [JObj [(''options'', JArr ys)]])]])], k') \<and>
       mset ys = mset [JStr ''A'', JStr ''B'', JStr ''C''])"
proof (intro conjI)
  show "\<not> truthy d \<or> \<not> typeof_object d \<longrightarrow> randomizePayload rnd d k = Inr (d, k)"
    by (simp add: randomizePayload_def)
  show "truthy d \<and> typeof_object d \<and> payload_ok (clone d) \<longrightarrow>
      (\<exists>d' k'. randomizePayload rnd d k = Inr (d', k') \<and> payload_spec (clone d) d')"
    using randomize_by_type_spec [of "clone d" rnd k] by (simp add: randomizePayload_def)
  show "plain d \<longrightarrow> clone d = d" using clone_plain by blast
  show "\<exists>ys k'. randomizePayload rnd quiz_example k =
       Inr (JObj [(''game_type'', JStr ''escape_game''),
             (''sections'', JArr [JObj [(''type'', JStr ''quiz''),
                (''questions'', JArr [JObj [(''options'', JArr ys)]])]])], k') \<and>
       mset ys = mset [JStr ''A'', JStr ''B'', JStr ''C'']"
    using quiz_example_run [of rnd k] shuffle_mset [of rnd "[JStr ''A'', JStr ''B'', JStr ''C'']" k]
    by blast
qed

lemma quiz_example_ok:
  "truthy quiz_example \<and> typeof_object quiz_example \<and> plain quiz_example \<and> payload_ok quiz_example"
  by (simp add: quiz_example_def payload_ok_def game_type_of_def elems_ok_def section_ok_def)

theorem randomize_value_preservation_witness:
  "payload_ok quiz_example \<and> clone quiz_example = quiz_example \<and>
   (\<exists>d' k'. randomizePayload zero_source quiz_example 0 = Inr (d', k') \<and> payload_spec quiz_example d')"
proof -
  note inst = randomize_value_preservation [of quiz_example zero_source 0]
  have c: "clone quiz_example = quiz_example" using inst quiz_example_ok by blast
  have "\<exists>d' k'. randomizePayload zero_source quiz_example 0 = Inr (d', k') \<and>
      payload_spec (clone quiz_example) d'"
    using inst quiz_example_ok c by auto
  then show ?thesis using quiz_example_ok c by simp
qed

text \<open>
  The claim C3 as stated, for every payload, fails: on a payload with a \<^verbatim>\<open>null\<close>
  section the callback reads \<^verbatim>\<open>s.type\<close> of \<^verbatim>\<open>null\<close> and throws, so there is no output.
\<close>

theorem randomize_null_section_counterexample:
  "randomizePayload zero_source null_section_example 0 = Inl (TypeError, 0)"
  by (simp add: null_section_example_def randomizePayload_def randomize_by_type_def game_type_of_def
      shuffle_map_prop_def section_cb_def shuffle_single Let_def)

text \<open>It fails as well on a field outside the shuffle table that holds \<^verbatim>\<open>Infinity\<close>: the
  output holds \<^verbatim>\<open>null\<close> there.\<close>

lemma randomize_infinity_example:
  "randomizePayload rnd (JObj [(''title'', JNum PosInfinity)]) k = Inr (JObj [(''title'', JNull)], k)"
  by (simp add: randomizePayload_def randomize_by_type_def game_type_of_def)

section \<open>Loading a payload shuffles it again\<close>

lemma zero_index: "random_index zero_source k n = 0"
  by (simp add: random_index_def zero_source_def unit_zero.rep_eq)

lemma alternating_index_even: "even k \<Longrightarrow> random_index alternating_source k n = 0"
  by (simp add: random_index_def alternating_source_def unit_zero.rep_eq)

lemma alternating_index_odd_2: "odd k \<Longrightarrow> random_index alternating_source k 2 = 1"
  by (simp add: random_index_def alternating_source_def unit_half.rep_eq)

lemma shuffle_pair: "shuffle rnd [x, y] k = (if random_index rnd k 2 = 0 then [y, x] else [x, y], Suc k)"
proof -
  let ?j = "random_index rnd k (Suc (Suc 0))"
  have "?j < Suc (Suc 0)" by (rule random_index_less) simp
  then have "?j = 0 \<or> ?j = Suc 0" by linarith
  then show ?thesis by (auto simp add: shuffle_def Let_def numeral_2_eq_2)
qed

lemma puzzle_first:
  "randomizePayload alternating_source puzzle_example 0 =
     Inr (JObj [(''game_type'', JStr ''matching_puzzle''), (''sets'', JArr [JNum (Finite 2), JNum (Finite 1)])], 1)"
  by (simp add: puzzle_example_def randomizePayload_def randomize_by_type_def game_type_of_def
      shuffle_prop_def shuffle_pair alternating_index_even Let_def)

lemma puzzle_second:
  "randomizePayload alternating_source puzzle_example 1 =
     Inr (puzzle_example, 2)"
  by (simp add: puzzle_example_def randomizePayload_def randomize_by_type_def game_type_of_def
      shuffle_prop_def shuffle_pair alternating_index_odd_2 Let_def)

lemma null_section_throws:
  "randomizePayload rnd null_section_example k = Inl (TypeError, k)"
  by (simp add: null_section_example_def randomizePayload_def randomize_by_type_def game_type_of_def
      shuffle_map_prop_def section_cb_def shuffle_single Let_def)

text \<open>
  Claim C1, as amended. When \<^verbatim>\<open>_loadPayload\<close> finds an object payload stored under
  \<^verbatim>\<open>'game_payload_' + fileId\<close> and \<^verbatim>\<open>_randomizePayload\<close> returns on it, \<^verbatim>\<open>_loadPayload\<close>
  returns that result, a new shuffle of the stored payload at every load, and leaves the
  stored item as it is. When \<^verbatim>\<open>_randomizePayload\<close> throws on the stored payload, the
  \<^verbatim>\<open>catch\<close> leads to the download: if it fails, \<^verbatim>\<open>_loadPayload\<close> throws; if it succeeds
  and \<^verbatim>\<open>_randomizePayload\<close> returns on the downloaded payload, that shuffle is returned
  and, unless \<^verbatim>\<open>setItem\<close> throws, its JSON text replaces the stored item. Every activation
  of a json node with truthy data writes the JSON text of the node's data, as it is in the
  index, under that key, unless \<^verbatim>\<open>setItem\<close> throws. So two activations perform two
  randomizations.
\<close>

theorem loadPayload_rerandomizes:
  "(ss (JSON_SESSION_PREFIX @ fileId) = Some (Json parsed) \<and> truthy parsed \<and> typeof_object parsed \<and>
      randomizePayload rnd parsed k = Inr (randomized, k')
      \<longrightarrow> loadPayload rnd fetch quota_ok fileId ss k = Inr (randomized, ss, k')) \<and>
   (ss (JSON_SESSION_PREFIX @ fileId) = Some (Json parsed) \<and> truthy parsed \<and> typeof_object parsed \<and>
      randomizePayload rnd parsed k = Inl (e, ka) \<and>
      fetch (if startsWith fileId ''http'' then fileId else ''../'' @ fileId) = None
      \<longrightarrow> loadPayload rnd fetch quota_ok fileId ss k = Inl (LoadError, ka)) \<and>
   (ss (JSON_SESSION_PREFIX @ fileId) = Some (Json parsed) \<and> truthy parsed \<and> typeof_object parsed \<and>
      randomizePayload rnd parsed k = Inl (e, ka) \<and>
      fetch (if startsWith fileId ''http'' then fileId else ''../'' @ fileId) = Some data \<and>
      randomizePayload rnd data ka = Inr (fetched, kb)
      \<longrightarrow> loadPayload rnd fetch quota_ok fileId ss k =
            Inr (fetched,
                 if quota_ok then ss(JSON_SESSION_PREFIX @ fileId \<mapsto> Json (clone fetched)) else ss, kb)) \<and>
   (node_data n = Some d \<and> truthy d
      \<longrightarrow> renderView_json fetch quota_ok n ss =
            (if quota_ok then (None, n, ss(''game_payload_'' @ node_id n \<mapsto> Json (clone d)))
             else (Some QuotaExceededError, n, ss)))"
  by (simp add: loadPayload_def renderView_json_def has_data_def Let_def)

theorem loadPayload_rerandomizes_witness:
  "loadPayload alternating_source no_network True ''database/p.json'' puzzle_storage 0 =
     Inr (JObj [(''game_type'', JStr ''matching_puzzle''),
                (''sets'', JArr [JNum (Finite 2), JNum (Finite 1)])],
          puzzle_storage, 1) \<and>
   loadPayload alternating_source no_network True ''database/p.json'' null_storage 0 =
     Inl (LoadError, 0) \<and>
   loadPayload alternating_source puzzle_network True ''database/p.json'' null_storage 0 =
     Inr (JObj [(''game_type'', JStr ''matching_puzzle''),
                (''sets'', JArr [JNum (Finite 2), JNum (Finite 1)])],
          null_storage(''game_payload_database/p.json'' \<mapsto>
            Json (JObj [(''game_type'', JStr ''matching_puzzle''),
                        (''sets'', JArr [JNum (Finite 2), JNum (Finite 1)])])), 1) \<and>
   renderView_json no_network True puzzle_node puzzle_storage = (None, puzzle_node, puzzle_storage)"
proof -
  let ?r = "JObj [(''game_type'', JStr ''matching_puzzle''),
                  (''sets'', JArr [JNum (Finite 2), JNum (Finite 1)])]"
  have a: "puzzle_storage (JSON_SESSION_PREFIX @ ''database/p.json'') = Some (Json puzzle_example)"
    by (simp add: puzzle_storage_def JSON_SESSION_PREFIX_def)
  have a': "null_storage (JSON_SESSION_PREFIX @ ''database/p.json'') = Some (Json null_section_example)"
    by (simp add: null_storage_def JSON_SESSION_PREFIX_def)
  have b: "truthy puzzle_example \<and> typeof_object puzzle_example" by (simp add: puzzle_example_def)
  have b': "truthy null_section_example \<and> typeof_object null_section_example"
    by (simp add: null_section_example_def)
  have c: "node_data puzzle_node = Some puzzle_example \<and> truthy puzzle_example"
    by (simp add: puzzle_node_def puzzle_example_def)
  have d: "puzzle_storage(''game_payload_'' @ node_id puzzle_node \<mapsto> Json (clone puzzle_example)) =
      puzzle_storage"
    by (simp add: puzzle_storage_def puzzle_node_def puzzle_example_def)
  have u: "(if startsWith ''database/p.json'' ''http'' then ''database/p.json''
            else ''../'' @ ''database/p.json'') = ''../database/p.json''"
    by (simp add: startsWith_def)
  have f0: "no_network (if startsWith ''database/p.json'' ''http'' then ''database/p.json''
            else ''../'' @ ''database/p.json'') = None"
    by (simp add: no_network_def)
  have f1: "puzzle_network (if startsWith ''database/p.json'' ''http'' then ''database/p.json''
            else ''../'' @ ''database/p.json'') = Some puzzle_example"
    unfolding u by (simp add: puzzle_network_def)
  have t: "randomizePayload alternating_source null_section_example 0 = Inl (TypeError, 0)"
    by (rule null_section_throws)
  have 1: "loadPayload alternating_source no_network True ''database/p.json'' puzzle_storage 0 =
     Inr (?r, puzzle_storage, 1)"
    using loadPayload_rerandomizes [where ss = puzzle_storage and fileId = "''database/p.json''"
        and parsed = puzzle_example and rnd = alternating_source and k = 0 and randomized = ?r
        and k' = 1 and fetch = no_network and quota_ok = True, THEN conjunct1] a b puzzle_first
    by blast
  have 2: "loadPayload alternating_source no_network True ''database/p.json'' null_storage 0 =
     Inl (LoadError, 0)"
    using loadPayload_rerandomizes [where ss = null_storage and fileId = "''database/p.json''"
        and parsed = null_section_example and rnd = alternating_source and k = 0
        and fetch = no_network and quota_ok = True and e = TypeError and ka = 0,
        THEN conjunct2, THEN conjunct1] a' b' t f0
    by blast
  have 3: "loadPayload alternating_source puzzle_network True ''database/p.json'' null_storage 0 =
     Inr (?r, if True then null_storage(JSON_SESSION_PREFIX @ ''database/p.json'' \<mapsto> Json (clone ?r))
              else null_storage, 1)"
    using loadPayload_rerandomizes [where ss = null_storage and fileId = "''database/p.json''"
        and parsed = null_section_example and rnd = alternating_source and k = 0
        and fetch = puzzle_network and quota_ok = True and e = TypeError and ka = 0
        and data = puzzle_example and fetched = ?r and kb = 1,
        THEN conjunct2, THEN conjunct2, THEN conjunct1] a' b' t f1 puzzle_first
    by blast
  have 4: "renderView_json no_network True puzzle_node puzzle_storage =
      (if True then (None, puzzle_node,
           puzzle_storage(''game_payload_'' @ node_id puzzle_node \<mapsto> Json (clone puzzle_example)))
       else (Some QuotaExceededError, puzzle_node, puzzle_storage))"
    using loadPayload_rerandomizes [where ss = puzzle_storage and fetch = no_network
        and quota_ok = True and n = puzzle_node and d = puzzle_example,
        THEN conjunct2, THEN conjunct2, THEN conjunct2] c
    by blast
  show ?thesis using 1 2 3 4 d by (simp add: JSON_SESSION_PREFIX_def)
qed

text \<open>
  The claim C1 as stated fails: with the stored payload found both times, the first load
  returns the sets in the order 2, 1, which is not the stored payload, and the second load
  returns them in the order 1, 2, which is not the result of the first.
\<close>

theorem loadPayload_cache_counterexample:
  "loadPayload alternating_source no_network True ''database/p.json'' puzzle_storage 0 =
     Inr (JObj [(''game_type'', JStr ''matching_puzzle''),
                (''sets'', JArr [JNum (Finite 2), JNum (Finite 1)])],
          puzzle_storage, 1) \<and>
   loadPayload alternating_source no_network True ''database/p.json'' puzzle_storage 1 =
     Inr (JObj [(''game_type'', JStr ''matching_puzzle''),
                (''sets'', JArr [JNum (Finite 1), JNum (Finite 2)])],
          puzzle_storage, 2) \<and>
   puzzle_storage ''game_payload_database/p.json'' =
     Some (Json (JObj [(''game_type'', JStr ''matching_puzzle''),
                       (''sets'', JArr [JNum (Finite 1), JNum (Finite 2)])]))"
proof -
  have a: "puzzle_storage (JSON_SESSION_PREFIX @ ''database/p.json'') = Some (Json puzzle_example)"
    by (simp add: puzzle_storage_def JSON_SESSION_PREFIX_def)
  have b: "truthy puzzle_example \<and> typeof_object puzzle_example" by (simp add: puzzle_example_def)
  have 1: "loadPayload alternating_source no_network True ''database/p.json'' puzzle_storage 0 =
     Inr (JObj [(''game_type'', JStr ''matching_puzzle''),
                (''sets'', JArr [JNum (Finite 2), JNum (Finite 1)])],
          puzzle_storage, 1)"
    using a b puzzle_first by (simp add: loadPayload_def Let_def)
  have 2: "loadPayload alternating_source no_network True ''database/p.json'' puzzle_storage 1 =
     Inr (puzzle_example, puzzle_storage, 2)"
    using a b puzzle_second by (simp add: loadPayload_def Let_def)
  show ?thesis using 1 2 by (simp add: puzzle_example_def puzzle_storage_def)
qed

section \<open>The navigation state and its persistence\<close>

lemma plain_clone_state: "plain (JObj st) \<Longrightarrow> clone (JObj st) = JObj st"
  by (rule clone_plain)

text \<open>
  Claim C7, as amended. When \<^verbatim>\<open>localStorage.setItem\<close> does not throw, then after a select,
  after a drawer open/close, after the \<^verbatim>\<open>mouseup\<close> that ends a drag of the resizer, and
  after an expand/collapse toggle on a state whose \<^verbatim>\<open>openedIds\<close> is an array, the full
  state has been written: the persisted item is the JSON text of the state in memory, which
  reads back as that state when it holds no \<^verbatim>\<open>-0\<close> and no number that is not finite. When
  \<^verbatim>\<open>setItem\<close> throws, the transition ends with that exception: the state in memory is
  changed and the persisted item is not. When \<^verbatim>\<open>openedIds\<close> is not an array, as after
  \<^verbatim>\<open>loadAppState\<close> of a blob that holds a string there, the toggle throws a \<^verbatim>\<open>TypeError\<close>
  and changes and writes nothing. A \<^verbatim>\<open>mousemove\<close> of the drag changes the drawer width in
  memory and writes nothing; so does the \<^verbatim>\<open>mousedown\<close> that starts it.
\<close>

theorem transitions_persist:
  "(quota_ok \<longrightarrow>
      fst (selectNode quota_ok i s) = None \<and> in_sync (snd (selectNode quota_ok i s)) \<and>
      fst (setDrawer quota_ok b s) = None \<and> in_sync (snd (setDrawer quota_ok b s)) \<and>
      fst (toggleDrawer quota_ok s) = None \<and> in_sync (snd (toggleDrawer quota_ok s)) \<and>
      (isResizing s \<longrightarrow> fst (mouseup quota_ok s) = None \<and> in_sync (snd (mouseup quota_ok s))) \<and>
      (map_of (appState s) ''openedIds'' = Some (JArr xs) \<longrightarrow>
         fst (toggleNode quota_ok i s) = None \<and> in_sync (snd (toggleNode quota_ok i s)))) \<and>
   (\<not> quota_ok \<longrightarrow>
      fst (selectNode quota_ok i s) = Some QuotaExceededError \<and>
      persisted (snd (selectNode quota_ok i s)) = persisted s \<and>
      fst (setDrawer quota_ok b s) = Some QuotaExceededError \<and>
      persisted (snd (setDrawer quota_ok b s)) = persisted s \<and>
      fst (toggleDrawer quota_ok s) = Some QuotaExceededError \<and>
      persisted (snd (toggleDrawer quota_ok s)) = persisted s \<and>
      (isResizing s \<longrightarrow> fst (mouseup quota_ok s) = Some QuotaExceededError \<and>
         persisted (snd (mouseup quota_ok s)) = persisted s) \<and>
      (map_of (appState s) ''openedIds'' = Some (JArr xs) \<longrightarrow>
         fst (toggleNode quota_ok i s) = Some QuotaExceededError \<and>
         persisted (snd (toggleNode quota_ok i s)) = persisted s)) \<and>
   map_of (appState (snd (selectNode quota_ok i s))) ''selectedId'' = Some (JStr i) \<and>
   map_of (appState (snd (setDrawer quota_ok b s))) ''drawerOpen'' = Some (JBool b) \<and>
   (map_of (appState s) ''openedIds'' = Some (JArr xs) \<longrightarrow>
      map_of (appState (snd (toggleNode quota_ok i s))) ''openedIds'' =
        Some (JArr (if JStr i \<in> set xs then remove1 (JStr i) xs else xs @ [JStr i]))) \<and>
   ((\<forall>ys. map_of (appState s) ''openedIds'' \<noteq> Some (JArr ys)) \<longrightarrow>
      toggleNode quota_ok i s = (Some TypeError, s)) \<and>
   (\<not> isResizing s \<longrightarrow> mouseup quota_ok s = (None, s)) \<and>
   persisted (mousemove x w s) = persisted s \<and> persisted (mousedown s) = persisted s \<and>
   (plain (JObj (appState s)) \<longrightarrow>
      (in_sync s \<longleftrightarrow> persisted s = Some (Json (JObj (appState s)))))"
proof -
  have t: "toggleNode quota_ok i s = (Some TypeError, s)"
    if "\<forall>ys. map_of (appState s) ''openedIds'' \<noteq> Some (JArr ys)"
    using that by (auto simp add: toggleNode_def split: option.splits json.splits)
  have p: "in_sync s \<longleftrightarrow> persisted s = Some (Json (JObj (appState s)))"
    if "plain (JObj (appState s))"
    using plain_clone_state [OF that] by (simp add: in_sync_def)
  show ?thesis
    using t p
    by (simp add: in_sync_def selectNode_def toggleNode_def setDrawer_def toggleDrawer_def
        mouseup_def mousemove_def mousedown_def saveAppState_def Let_def update_conv'
        del: clone.simps plain.simps)
qed

lemma initial_page_eq:
  "initial_page = \<lparr>appState = default_fields, isResizing = False,
     persisted = Some (Json (JObj default_fields))\<rparr>"
  by (simp add: initial_page_def saveAppState_def default_fields_def)

lemma corrupt_page_openedIds:
  "map_of (appState corrupt_page) ''openedIds'' = Some (JStr ''oops'')"
  by (simp add: corrupt_page_def loadAppState_def Object_assign_def corrupt_blob_def default_fields_def)

theorem transitions_persist_witness:
  "fst (toggleNode True ''a'' initial_page) = None \<and> in_sync (snd (toggleNode True ''a'' initial_page)) \<and>
   map_of (appState (snd (toggleNode True ''a'' initial_page))) ''openedIds'' = Some (JArr [JStr ''a'']) \<and>
   in_sync (snd (mouseup True (mousemove 400 1000 (mousedown initial_page)))) \<and>
   toggleNode True ''a'' corrupt_page = (Some TypeError, corrupt_page) \<and>
   fst (selectNode False ''a'' initial_page) = Some QuotaExceededError \<and>
   persisted (snd (selectNode False ''a'' initial_page)) = persisted initial_page \<and>
   map_of (appState (snd (selectNode False ''a'' initial_page))) ''selectedId'' = Some (JStr ''a'')"
proof -
  have o: "map_of (appState initial_page) ''openedIds'' = Some (JArr [])"
    by (simp add: initial_page_eq default_fields_def)
  have r: "isResizing (mousemove 400 1000 (mousedown initial_page))"
    by (simp add: mousemove_def mousedown_def Let_def)
  have c: "\<forall>ys. map_of (appState corrupt_page) ''openedIds'' \<noteq> Some (JArr ys)"
    by (simp add: corrupt_page_openedIds)
  note a = transitions_persist [where quota_ok = True and i = "''a''" and s = initial_page and xs = "[]"]
  note b = transitions_persist [where quota_ok = True and s = "mousemove 400 1000 (mousedown initial_page)"]
  note d = transitions_persist [where quota_ok = True and i = "''a''" and s = corrupt_page]
  note e = transitions_persist [where quota_ok = False and i = "''a''" and s = initial_page]
  have 1: "fst (toggleNode True ''a'' initial_page) = None \<and> in_sync (snd (toggleNode True ''a'' initial_page))"
    using a o by blast
  have 2: "map_of (appState (snd (toggleNode True ''a'' initial_page))) ''openedIds'' = Some (JArr [JStr ''a''])"
    using a o by simp
  have 3: "in_sync (snd (mouseup True (mousemove 400 1000 (mousedown initial_page))))"
    using b r by blast
  have 4: "toggleNode True ''a'' corrupt_page = (Some TypeError, corrupt_page)"
    using d c by blast
  have 5: "fst (selectNode False ''a'' initial_page) = Some QuotaExceededError \<and>
      persisted (snd (selectNode False ''a'' initial_page)) = persisted initial_page \<and>
      map_of (appState (snd (selectNode False ''a'' initial_page))) ''selectedId'' = Some (JStr ''a'')"
    using e by blast
  show ?thesis using 1 2 3 4 5 by blast
qed

text \<open>
  The claim C7 as stated fails for the drawer resize: after a \<^verbatim>\<open>mousemove\<close> to 400 in a
  window of width 1000 the width in memory is 400, the persisted state still holds the
  initial state with width 320.
\<close>

theorem resize_not_persisted_counterexample:
  "in_sync (mousedown initial_page) \<and>
   map_of (appState (mousemove 400 1000 (mousedown initial_page))) ''drawerWidth'' =
     Some (JNum (Finite 400)) \<and>
   persisted (mousemove 400 1000 (mousedown initial_page)) = Some (Json (JObj default_fields)) \<and>
   \<not> in_sync (mousemove 400 1000 (mousedown initial_page))"
  by (simp add: in_sync_def mousemove_def mousedown_def initial_page_eq default_fields_def Let_def)

lemma fold_assign_lookup:
  "map_of (fold (\<lambda>(p, v) t. if p = ''__proto__'' then t else AList.update p v t) gs st) f =
     (case map_of (rev (filter (\<lambda>(p, v). p \<noteq> ''__proto__'') gs)) f of
        Some v \<Rightarrow> Some v | None \<Rightarrow> map_of st f)"
proof (induction gs arbitrary: st)
  case Nil
  then show ?case by simp
next
  case (Cons g gs)
  obtain p v where g: "g = (p, v)" by (cases g)
  show ?case
    by (auto simp add: g Cons.IH update_conv' map_add_def split: option.splits)
qed

lemma map_of_rev_distinct: "distinct (map fst xs) \<Longrightarrow> map_of (rev xs) k = map_of xs k"
proof (induction xs)
  case Nil
  then show ?case by simp
next
  case (Cons x xs)
  obtain a b where x: "x = (a, b)" by (cases x)
  have n: "map_of xs a = None" using Cons.prems x by (simp add: map_of_eq_None_iff)
  show ?case using Cons x n by (auto simp add: map_add_def split: option.splits)
qed

text \<open>A reload after a save resumes with the saved state, as its JSON text reads.\<close>

lemma map_of_clone_fields:
  "map_of (map (\<lambda>(p, v). (p, clone v)) fs) f = map_option clone (map_of fs f)"
  by (induction fs) auto

lemma clone_fields_keys: "map fst (map (\<lambda>(p, v). (p, clone v)) fs) = map fst fs"
  by (induction fs) auto

lemma reload_resumes:
  assumes "distinct (map fst (appState s))" and "f \<noteq> ''__proto__''"
  shows "map_of (loadAppState default_fields (persisted (snd (saveAppState True s)))) f =
           (case map_of (appState s) f of Some v \<Rightarrow> Some (clone v) | None \<Rightarrow> map_of default_fields f)"
proof -
  let ?gs = "map (\<lambda>(p, v). (p, clone v)) (appState s)"
  have "distinct (map fst ?gs)" using assms(1) by (simp only: clone_fields_keys)
  then have d: "distinct (map fst (filter (\<lambda>(p, v). p \<noteq> ''__proto__'') ?gs))"
    by (rule distinct_map_filter)
  have "map_of (rev (filter (\<lambda>(p, v). p \<noteq> ''__proto__'') ?gs)) f =
      map_of (filter (\<lambda>(p, v). p \<noteq> ''__proto__'') ?gs) f"
    using d by (rule map_of_rev_distinct)
  moreover have "map_of (filter (\<lambda>(p, v). p \<noteq> ''__proto__'') gs) f = map_of gs f"
    for gs :: "(string \<times> json) list"
    using assms(2) by (induction gs) auto
  ultimately show ?thesis
    by (simp add: loadAppState_def saveAppState_def Object_assign_def fold_assign_lookup
        map_of_clone_fields split: option.splits)
qed

text \<open>
  Claim C8, as amended. \<^verbatim>\<open>loadAppState\<close> never throws (it is a total function into the
  states). When the stored item is missing, empty or not JSON, the state keeps all its
  defaults. When it is the JSON text of an object, every property of that object replaces
  the property of the same name by the stored value as it is, valid or not, and the
  properties absent from it keep their defaults.
\<close>

theorem loadAppState_merge:
  "(raw = None \<or> raw = Some Unparsable \<longrightarrow> loadAppState st raw = st) \<and>
   (raw = Some (Json (JObj gs)) \<and> distinct (map fst gs) \<and> f \<noteq> ''__proto__'' \<longrightarrow>
      map_of (loadAppState st raw) f =
        (case map_of gs f of Some v \<Rightarrow> Some v | None \<Rightarrow> map_of st f))"
proof -
  have "map_of (rev (filter (\<lambda>(p, v). p \<noteq> ''__proto__'') gs)) f = map_of gs f"
    if "distinct (map fst gs)" "f \<noteq> ''__proto__''"
  proof -
    have "distinct (map fst (filter (\<lambda>(p, v). p \<noteq> ''__proto__'') gs))"
      using that(1) by (induction gs) (auto simp add: image_iff)
    then have "map_of (rev (filter (\<lambda>(p, v). p \<noteq> ''__proto__'') gs)) f =
        map_of (filter (\<lambda>(p, v). p \<noteq> ''__proto__'') gs) f"
      by (rule map_of_rev_distinct)
    moreover have "map_of (filter (\<lambda>(p, v). p \<noteq> ''__proto__'') gs) f = map_of gs f"
      using that(2) by (induction gs) auto
    ultimately show ?thesis by simp
  qed
  then show ?thesis
    by (auto simp add: loadAppState_def Object_assign_def fold_assign_lookup)
qed

text \<open>
  The claim C8 as stated fails: in a blob whose \<^verbatim>\<open>openedIds\<close> is a string, that field does
  not fall back to its default \<^verbatim>\<open>[]\<close>, the string is applied.
\<close>

theorem loadAppState_counterexample:
  "map_of (loadAppState default_fields (Some (Json corrupt_blob))) ''openedIds'' = Some (JStr ''oops'') \<and>
   \<not> field_valid ''openedIds'' (JStr ''oops'') \<and>
   map_of default_fields ''openedIds'' = Some (JArr [])"
  by (simp add: loadAppState_def Object_assign_def corrupt_blob_def default_fields_def field_valid_def)

theorem loadAppState_merge_witness:
  "map_of (loadAppState default_fields (Some (Json corrupt_blob))) ''drawerWidth'' = Some (JNum (Finite 320)) \<and>
   map_of (loadAppState default_fields (Some (Json corrupt_blob))) ''selectedId'' = Some (JStr ''a'') \<and>
   loadAppState default_fields (Some Unparsable) = default_fields"
proof -
  have d: "distinct (map fst [(''selectedId'', JStr ''a''), (''openedIds'', JStr ''oops'')])" by simp
  have 1: "map_of (loadAppState default_fields (Some (Json corrupt_blob))) ''drawerWidth'' = Some (JNum (Finite 320))"
    using loadAppState_merge [of "Some (Json corrupt_blob)" default_fields
        "[(''selectedId'', JStr ''a''), (''openedIds'', JStr ''oops'')]" "''drawerWidth''", THEN conjunct2] d
    by (simp add: corrupt_blob_def default_fields_def)
  have 2: "map_of (loadAppState default_fields (Some (Json corrupt_blob))) ''selectedId'' = Some (JStr ''a'')"
    using loadAppState_merge [of "Some (Json corrupt_blob)" default_fields
        "[(''selectedId'', JStr ''a''), (''openedIds'', JStr ''oops'')]" "''selectedId''", THEN conjunct2] d
    by (simp add: corrupt_blob_def default_fields_def)
  have 3: "loadAppState default_fields (Some Unparsable) = default_fields"
    using loadAppState_merge [of "Some Unparsable" default_fields, THEN conjunct1] by simp
  show ?thesis using 1 2 3 by simp
qed

section \<open>The local tree builder: order and pruning\<close>

declare scanDir.simps [simp del]

lemma compare_item_order:
  "compare (item_order lc) a b =
     (if isDirectory a \<and> \<not> isDirectory b then Less
      else if \<not> isDirectory a \<and> isDirectory b then Greater
      else compare lc (ent_name a) (ent_name b))"
  by (simp add: item_order.rep_eq)

lemma sorted_pairwise:
  "sorted cmp xs \<Longrightarrow> sorted_wrt (\<lambda>a b. compare cmp a b \<noteq> Greater) xs"
proof (induction xs)
  case Nil
  then show ?case by simp
next
  case (Cons x xs)
  have "sorted cmp xs" using Cons.prems by (rule sorted_Cons_imp_sorted)
  moreover have "compare cmp x y \<noteq> Greater" if "y \<in> set xs" for y
    using Cons.prems that by (rule sorted_Cons_imp_not_less)
  ultimately show ?case using Cons.IH by simp
qed

lemma sorted_wrt_concat_map:
  assumes "sorted_wrt R xs"
    and "\<And>x. x \<in> set xs \<Longrightarrow> f x = [] \<or> (\<exists>n. f x = [n] \<and> Q x n)"
    and "\<And>x y n m. R x y \<Longrightarrow> Q x n \<Longrightarrow> Q y m \<Longrightarrow> R' n m"
  shows "sorted_wrt R' (concat (map f xs))"
  using assms(1,2)
proof (induction xs)
  case Nil
  then show ?case by simp
next
  case (Cons x xs)
  have ih: "sorted_wrt R' (concat (map f xs))" using Cons by simp
  have later: "\<forall>m \<in> set (concat (map f xs)). \<exists>y \<in> set xs. Q y m"
  proof
    fix m assume "m \<in> set (concat (map f xs))"
    then obtain y where y: "y \<in> set xs" "m \<in> set (f y)" by auto
    then have "f y = [] \<or> (\<exists>n. f y = [n] \<and> Q y n)" using Cons.prems(2) by simp
    then show "\<exists>y \<in> set xs. Q y m" using y by auto
  qed
  have "f x = [] \<or> (\<exists>n. f x = [n] \<and> Q x n)" using Cons.prems(2) by simp
  then show ?case
  proof
    assume "f x = []"
    then show ?thesis using ih by simp
  next
    assume "\<exists>n. f x = [n] \<and> Q x n"
    then obtain n where n: "f x = [n]" "Q x n" by blast
    have "\<forall>m \<in> set (concat (map f xs)). R' n m"
    proof
      fix m assume "m \<in> set (concat (map f xs))"
      then obtain y where y: "y \<in> set xs" "Q y m" using later by blast
      have "R x y" using Cons.prems(1) y(1) by simp
      then show "R' n m" using n(2) y(2) assms(3) by blast
    qed
    then show ?thesis using n ih by simp
  qed
qed


declare scan_item.simps [simp del]

lemma scan_item_cases:
  "scan_item lc p x = [] \<or> (\<exists>n. scan_item lc p x = [n] \<and> emitted x n)"
  by (cases x) (auto simp add: scan_item.simps emitted_def Let_def)

lemma scanDir_top_sorted: "sorted_wrt (sibling_le lc) (scanDir lc p items)"
proof -
  have s: "sorted_wrt (\<lambda>a b. compare (item_order lc) a b \<noteq> Greater) (sort (item_order lc) items)"
    by (rule sorted_pairwise) simp
  show ?thesis
    unfolding scanDir.simps [of lc p items]
  proof (rule sorted_wrt_concat_map [OF s, where Q = emitted])
    fix x
    show "scan_item lc p x = [] \<or> (\<exists>n. scan_item lc p x = [n] \<and> emitted x n)"
      by (rule scan_item_cases)
  next
    fix x y n m
    assume "compare (item_order lc) x y \<noteq> Greater" "emitted x n" "emitted y m"
    then show "sibling_le lc n m"
      by (auto simp add: compare_item_order emitted_def sibling_le_def split: if_splits)
  qed
qed

text \<open>An induction principle for the nodes of a scanned tree.\<close>

lemma scan_nodes_induct:
  assumes leaf: "\<And>lc p name content k. \<not> startsWith name ''.'' \<Longrightarrow>
      kind_of_ext (toLowerCase (extname name)) = Some k \<Longrightarrow>
      P lc (Node (p @ ''/'' @ name) name False (Some k) None (if k = ''json'' then content else None))"
    and folder: "\<And>lc p name entries. \<not> startsWith name ''.'' \<Longrightarrow>
      scanDir lc (p @ ''/'' @ name) entries \<noteq> [] \<Longrightarrow>
      (\<forall>n \<in> set (tree_nodes (scanDir lc (p @ ''/'' @ name) entries)). P lc n) \<Longrightarrow>
      P lc (Node (p @ ''/'' @ name) name True None (Some (scanDir lc (p @ ''/'' @ name) entries)) None)"
  shows "\<forall>n \<in> set (tree_nodes (scanDir lc p items)). P lc n"
    and "\<forall>n \<in> set (tree_nodes (scan_item lc p item)). P lc n"
proof (induction lc p items and lc p item rule: scanDir_scan_item.induct)
  case (1 lc dirPath items)
  show ?case
  proof
    fix n assume "n \<in> set (tree_nodes (scanDir lc dirPath items))"
    then obtain x where x: "x \<in> set (sort (item_order lc) items)" "n \<in> set (tree_nodes (scan_item lc dirPath x))"
      by (auto simp add: scanDir.simps tree_nodes_def)
    then show "P lc n" using 1 by blast
  qed
next
  case (2 lc dirPath item)
  show ?case
  proof (cases "startsWith (ent_name item) ''.''")
    case True
    then show ?thesis by (simp add: scan_item.simps tree_nodes_def)
  next
    case False
    show ?thesis
    proof (cases item)
      case (File name content)
      show ?thesis
        using False leaf [of name _ lc dirPath content]
        by (auto simp add: File scan_item.simps tree_nodes_def Let_def kind_of_ext_def)
    next
      case (Dir name entries)
      let ?rp = "dirPath @ ''/'' @ name"
      have ih: "\<forall>n \<in> set (tree_nodes (scanDir lc ?rp entries)). P lc n"
        using 2 [OF False _ Dir, of ?rp] Dir by simp
      show ?thesis
      proof (cases "scanDir lc ?rp entries = []")
        case True
        then show ?thesis using False by (simp add: Dir scan_item.simps tree_nodes_def)
      next
        case ne: False
        have "P lc (Node ?rp name True None (Some (scanDir lc ?rp entries)) None)"
          using False Dir ne ih by (intro folder) simp_all
        then show ?thesis
          using False ne ih by (auto simp add: Dir scan_item.simps tree_nodes_def Let_def)
      qed
    qed
  qed
qed


lemma ext_json_2: "toLowerCase (extname ''Item 2.json'') = ''.json''"
  by (simp add: toLowerCase_def extname_def to_lower_def)

lemma ext_json_10: "toLowerCase (extname ''Item 10.json'') = ''.json''"
  by (simp add: toLowerCase_def extname_def to_lower_def)

lemma item_example:
  assumes "compare lc ''Item 2.json'' ''Item 10.json'' = Less"
  shows "map node_name (scanDir lc p [File ''Item 10.json'' c1, File ''Item 2.json'' c2]) =
           [''Item 2.json'', ''Item 10.json'']"
proof -
  have g: "compare lc ''Item 10.json'' ''Item 2.json'' = Greater"
    using assms by (simp add: compare.greater_iff_sym_less)
  have "sort (item_order lc) [File ''Item 10.json'' c1, File ''Item 2.json'' c2] =
      [File ''Item 2.json'' c2, File ''Item 10.json'' c1]"
    using g by (simp add: compare_item_order)
  then show ?thesis
    by (simp add: scanDir.simps scan_item.simps startsWith_def ext_json_2 ext_json_10)
qed

lemma compare_numeric_items: "compare numeric_collation ''Item 2.json'' ''Item 10.json'' = Less"
  by (simp add: numeric_collation_def is_digit_def to_lower_def)

lemma example_scan:
  "scanDir numeric_collation ''database'' example_dir =
     [Node ''database/B'' ''B'' True None
        (Some [Node ''database/B/a.pdf'' ''a.pdf'' False (Some ''pdf'') None None]) None,
      Node ''database/Item 2.JSON'' ''Item 2.JSON'' False (Some ''json'') None None,
      Node ''database/Item 10.json'' ''Item 10.json'' False (Some ''json'') None (Some (JObj []))]"
  by (simp add: example_dir_def scanDir.simps scan_item.simps compare_item_order numeric_collation_def
     is_digit_def to_lower_def startsWith_def toLowerCase_def extname_def)

text \<open>
  Claim C4. In every tree produced by \<^verbatim>\<open>scanDir\<close>, every sibling list (the roots and the
  children of every node) has its folders before its files and, within the folders and
  within the files, the names in the order of the collation \<^verbatim>\<open>localeCompare\<close> with
  \<^verbatim>\<open>numeric: true, sensitivity: 'base'\<close>; so when that collation puts Item 2 before
  Item 10, the tree does.
\<close>

theorem scanDir_sibling_order:
  "(\<forall>L \<in> sibling_lists (scanDir lc p items). sorted_wrt (sibling_le lc) L) \<and>
   (compare lc ''Item 2.json'' ''Item 10.json'' = Less \<longrightarrow>
      map node_name (scanDir lc p [File ''Item 10.json'' c1, File ''Item 2.json'' c2]) =
        [''Item 2.json'', ''Item 10.json''])"
proof
  have deep: "\<forall>n \<in> set (tree_nodes (scanDir lc p items)).
      \<forall>cs. children n = Some cs \<longrightarrow> sorted_wrt (sibling_le lc) cs"
    by (rule scan_nodes_induct(1)) (simp_all add: scanDir_top_sorted)
  show "\<forall>L \<in> sibling_lists (scanDir lc p items). sorted_wrt (sibling_le lc) L"
    using deep scanDir_top_sorted [of lc p items] by (auto simp add: sibling_lists_def)
  show "compare lc ''Item 2.json'' ''Item 10.json'' = Less \<longrightarrow>
      map node_name (scanDir lc p [File ''Item 10.json'' c1, File ''Item 2.json'' c2]) =
        [''Item 2.json'', ''Item 10.json'']"
    using item_example by blast
qed

theorem scanDir_sibling_order_witness:
  "scanDir numeric_collation ''database'' example_dir
     \<in> sibling_lists (scanDir numeric_collation ''database'' example_dir) \<and>
   sorted_wrt (sibling_le numeric_collation) (scanDir numeric_collation ''database'' example_dir) \<and>
   compare numeric_collation ''Item 2.json'' ''Item 10.json'' = Less \<and>
   map node_name (scanDir numeric_collation ''database''
       [File ''Item 10.json'' None, File ''Item 2.json'' None]) = [''Item 2.json'', ''Item 10.json'']"
proof -
  have m: "scanDir numeric_collation ''database'' example_dir
     \<in> sibling_lists (scanDir numeric_collation ''database'' example_dir)"
    by (simp add: sibling_lists_def)
  note inst = scanDir_sibling_order [of numeric_collation "''database''" example_dir None None]
  show ?thesis using inst m compare_numeric_items by blast
qed

lemma scan_item_id: "n \<in> set (scan_item lc p x) \<Longrightarrow> node_id n = p @ ''/'' @ ent_name x"
  by (cases x) (auto simp add: scan_item.simps Let_def split: if_splits)

lemma barren_scan:
  "list_all barren items \<Longrightarrow> scanDir lc p items = []"
  "barren item \<Longrightarrow> scan_item lc p item = []"
proof (induction lc p items and lc p item rule: scanDir_scan_item.induct)
  case (1 lc dirPath items)
  then show ?case by (simp add: scanDir.simps list_all_iff)
next
  case (2 lc dirPath item)
  show ?case
  proof (cases item)
    case (File name content)
    then show ?thesis
      using 2(2) by (auto simp add: scan_item.simps kind_of_ext_def Let_def split: if_splits)
  next
    case (Dir name entries)
    show ?thesis
    proof (cases "startsWith name ''.''")
      case True
      then show ?thesis by (simp add: Dir scan_item.simps)
    next
      case False
      then have "list_all barren entries" using 2(2) Dir by simp
      then have "scanDir lc (dirPath @ ''/'' @ name) entries = []"
        using 2(1) [of "dirPath @ ''/'' @ name" name entries] False Dir by simp
      then show ?thesis by (simp add: Dir scan_item.simps)
    qed
  qed
qed

lemma empty_dir_omitted:
  assumes d: "distinct (map ent_name items)" and m: "Dir name entries \<in> set items"
    and e: "scanDir lc (p @ ''/'' @ name) entries = []"
  shows "\<forall>n \<in> set (scanDir lc p items). node_id n \<noteq> p @ ''/'' @ name"
proof
  fix n assume "n \<in> set (scanDir lc p items)"
  then obtain x where x: "x \<in> set items" "n \<in> set (scan_item lc p x)"
    by (auto simp add: scanDir.simps)
  show "node_id n \<noteq> p @ ''/'' @ name"
  proof
    assume "node_id n = p @ ''/'' @ name"
    then have "ent_name x = ent_name (Dir name entries)" using scan_item_id [OF x(2)] by simp
    moreover have "inj_on ent_name (set items)" using d by (simp add: distinct_map)
    ultimately have "x = Dir name entries" using x(1) m by (metis inj_onD)
    then have "scan_item lc p x = []" using e by (simp add: scan_item.simps)
    then show False using x(2) by simp
  qed
qed

text \<open>
  Claim C5. Every node of a tree produced by \<^verbatim>\<open>scanDir\<close> is visible (its name does not start
  with a dot) and is either a folder with at least one child or a file whose extension is
  one of .json, .pdf, .pptx, .ppt, with the kind of that extension. A directory whose
  entries are all barren (hidden, of an unrecognized type, or directories of such entries)
  has an empty result, and a directory with an empty result has no node among the children
  of its parent.
\<close>

theorem scanDir_prunes:
  "(\<forall>n \<in> set (tree_nodes (scanDir lc p items)).
      \<not> startsWith (node_name n) ''.'' \<and>
      (if isFolder n then (\<exists>cs. children n = Some cs \<and> cs \<noteq> [])
       else kind_of_ext (toLowerCase (extname (node_name n))) \<noteq> None \<and>
            kind n = kind_of_ext (toLowerCase (extname (node_name n))))) \<and>
   (list_all barren items \<longrightarrow> scanDir lc p items = []) \<and>
   (distinct (map ent_name items) \<and> Dir name entries \<in> set items \<and>
      scanDir lc (p @ ''/'' @ name) entries = []
      \<longrightarrow> (\<forall>n \<in> set (scanDir lc p items). node_id n \<noteq> p @ ''/'' @ name))"
proof (intro conjI)
  show "\<forall>n \<in> set (tree_nodes (scanDir lc p items)).
      \<not> startsWith (node_name n) ''.'' \<and>
      (if isFolder n then (\<exists>cs. children n = Some cs \<and> cs \<noteq> [])
       else kind_of_ext (toLowerCase (extname (node_name n))) \<noteq> None \<and>
            kind n = kind_of_ext (toLowerCase (extname (node_name n))))"
    by (rule scan_nodes_induct(1)) simp_all
  show "list_all barren items \<longrightarrow> scanDir lc p items = []"
    using barren_scan(1) by blast
  show "distinct (map ent_name items) \<and> Dir name entries \<in> set items \<and>
      scanDir lc (p @ ''/'' @ name) entries = []
      \<longrightarrow> (\<forall>n \<in> set (scanDir lc p items). node_id n \<noteq> p @ ''/'' @ name)"
    using empty_dir_omitted by blast
qed

theorem scanDir_prunes_witness:
  "Node ''database/B'' ''B'' True None
        (Some [Node ''database/B/a.pdf'' ''a.pdf'' False (Some ''pdf'') None None]) None
     \<in> set (tree_nodes (scanDir numeric_collation ''database'' example_dir)) \<and>
   list_all barren [File ''readme.txt'' None] \<and>
   scanDir numeric_collation ''database/notes'' [File ''readme.txt'' None] = [] \<and>
   distinct (map ent_name example_dir) \<and>
   Dir ''notes'' [File ''readme.txt'' None] \<in> set example_dir \<and>
   ''database/notes'' \<notin> node_id ` set (scanDir numeric_collation ''database'' example_dir)"
proof -
  have a: "Node ''database/B'' ''B'' True None
        (Some [Node ''database/B/a.pdf'' ''a.pdf'' False (Some ''pdf'') None None]) None
     \<in> set (tree_nodes (scanDir numeric_collation ''database'' example_dir))"
    by (simp add: example_scan tree_nodes_def)
  have b: "list_all barren [File ''readme.txt'' None]"
    by (simp add: startsWith_def kind_of_ext_def toLowerCase_def extname_def to_lower_def)
  have c: "distinct (map ent_name example_dir)" by (simp add: example_dir_def)
  have d: "Dir ''notes'' [File ''readme.txt'' None] \<in> set example_dir" by (simp add: example_dir_def)
  have e: "scanDir numeric_collation ''database/notes'' [File ''readme.txt'' None] = []"
    using scanDir_prunes [of numeric_collation "''database/notes''" "[File ''readme.txt'' None]",
        THEN conjunct2, THEN conjunct1] b by blast
  have f: "\<forall>n \<in> set (scanDir numeric_collation ''database'' example_dir). node_id n \<noteq> ''database/notes''"
    using scanDir_prunes [of numeric_collation "''database''" example_dir "''notes''" "[File ''readme.txt'' None]",
        THEN conjunct2, THEN conjunct2] c d e by simp
  have g: "''database/notes'' \<notin> node_id ` set (scanDir numeric_collation ''database'' example_dir)"
    using f by (auto simp add: image_iff)
  show ?thesis using a b c d e g by blast
qed

section \<open>The flat-list tree builder\<close>

lemma listing_example_tree:
  "buildTreeFromFlatList (rawNodes listing_example) =
     Inr [Node ''database/x.json'' ''x.json'' False (Some ''json'') None None]"
  by (simp add: listing_example_def rawNodes_def startsWith_def buildTreeFromFlatList_def visit_entry_def
    visit_part_def in_table_def inherited_def push_child_def flat_kind_def toLowerCase_def to_lower_def
    root_tree_def Let_def)

text \<open>In a tree of the local builder every file node has one of the three kinds.\<close>

lemma scanDir_leaf_kinds:
  "\<forall>n \<in> set (tree_nodes (scanDir lc p items)).
     \<not> isFolder n \<longrightarrow> kind n \<in> {Some ''json'', Some ''pdf'', Some ''pptx''}"
  by (rule scan_nodes_induct(1)) (auto simp add: kind_of_ext_def split: if_splits)

text \<open>
  Claim C2 fails on the flat-list builder: for the listing with the one file
  \<^verbatim>\<open>database/notes.txt\<close> it returns a tree whose only node is a file node without a kind,
  where the local builder emits no node at all.
\<close>

theorem flat_leaf_without_kind:
  "buildTreeFromFlatList (rawNodes listing_with_text) =
     Inr [Node ''database/notes.txt'' ''notes.txt'' False None None None]"
  by (simp add: listing_with_text_def rawNodes_def startsWith_def buildTreeFromFlatList_def visit_entry_def
    visit_part_def in_table_def inherited_def push_child_def flat_kind_def toLowerCase_def to_lower_def
    root_tree_def Let_def)

subsection \<open>The two loops as one sequence of steps\<close>

lemma forEach_append:
  "forEach f (xs @ ys) s = (case forEach f xs s of Inl e \<Rightarrow> Inl e | Inr s' \<Rightarrow> forEach f ys s')"
  by (induction xs arbitrary: s) (auto split: sum.splits)

lemma visit_part_touch:
  "visit_part n len (i, part) (m, cur) =
     (case touch_table \<lparr>t_entry = n, t_last = (\<not> i < len - 1), t_parent = cur,
             t_key = (if cur \<noteq> [] then cur @ ''/'' @ part else part), t_part = part\<rparr> m of
        Inl e \<Rightarrow> Inl e
      | Inr m' \<Rightarrow> Inr (m', if cur \<noteq> [] then cur @ ''/'' @ part else part))"
  by (simp add: visit_part_def touch_table_def Let_def split: sum.splits)

lemma walk_touches:
  "(case forEach (visit_part n len) (zip [i..<i + length ps] ps) (m, cur) of
      Inl e \<Rightarrow> Inl e | Inr (m', c) \<Rightarrow> Inr m') =
   forEach touch_table (touches n len i cur ps) m"
proof (induction ps arbitrary: i m cur)
  case Nil
  then show ?case by simp
next
  case (Cons part ps)
  let ?c = "if cur \<noteq> [] then cur @ ''/'' @ part else part"
  let ?t = "\<lparr>t_entry = n, t_last = (\<not> i < len - 1), t_parent = cur, t_key = ?c, t_part = part\<rparr>"
  let ?Z = "zip [Suc i..<Suc i + length ps] ps"
  have "[i..<i + length (part # ps)] = i # [Suc i..<Suc i + length ps]"
    by (subst upt_rec) simp
  then have z: "zip [i..<i + length (part # ps)] (part # ps) = (i, part) # ?Z"
    by (simp only: zip_Cons_Cons)
  have t: "touches n len i cur (part # ps) = ?t # touches n len (Suc i) ?c ps"
    by (simp add: Let_def)
  have v: "visit_part n len (i, part) (m, cur) =
      (case touch_table ?t m of Inl e \<Rightarrow> Inl e | Inr m' \<Rightarrow> Inr (m', ?c))"
    by (rule visit_part_touch)
  show ?case
  proof (cases "touch_table ?t m")
    case (Inl e)
    then show ?thesis unfolding z t by (simp only: forEach.simps v sum.case)
  next
    case (Inr m')
    have "(case forEach (visit_part n len) ?Z (m', ?c) of Inl e \<Rightarrow> Inl e | Inr (m'', c) \<Rightarrow> Inr m'') =
        forEach touch_table (touches n len (Suc i) ?c ps) m'"
      by (rule Cons.IH)
    then show ?thesis unfolding z t using Inr by (simp only: forEach.simps v sum.case prod.case)
  qed
qed

lemma visit_entry_touches: "visit_entry n m = forEach touch_table (entry_touches n) m"
  using walk_touches [of n "length (split_on CHR ''/'' (entry_path n))" 0 "split_on CHR ''/'' (entry_path n)" m "[]"]
  by (simp add: visit_entry_def entry_touches_def Let_def split: sum.splits prod.splits)

lemma forEach_entries:
  "forEach visit_entry L m = forEach touch_table (concat (map entry_touches L)) m"
  by (induction L arbitrary: m) (auto simp add: forEach_append visit_entry_touches split: sum.splits)


lemma not_inherited_db: "\<not> inherited ''database''" "\<not> inherited (''database/'' @ r)"
  by (simp_all add: inherited_def)

lemma update_append_in:
  "k \<in> fst ` set xs \<Longrightarrow> AList.update k v (xs @ ys) = AList.update k v xs @ ys"
  by (induction xs) auto

lemma map_of_None_keys: "map_of m k = None \<longleftrightarrow> k \<notin> set (map fst m)"
  by (simp add: map_of_eq_None_iff)

lemma created_mono: "created T k nm fo \<Longrightarrow> created (T @ ts) k nm fo"
  unfolding created_def by (metis append_Cons append_assoc)

lemma created_new:
  assumes "\<forall>t' \<in> set T. t_key t' \<noteq> t_key t"
  shows "created (T @ t # ts) (t_key t) (t_part t) (entry_type (t_entry t) = ''tree'' \<or> \<not> t_last t)"
  unfolding created_def using assms by blast

text \<open>What a step does: nothing when its key is in the table; else it adds the node at the end
  and its key to the children of the parent.\<close>

lemma touch_known:
  "map_of m (t_key t) \<noteq> None \<Longrightarrow> touch_table t m = Inr m"
  by (simp add: touch_table_def in_table_def)

lemma touch_new:
  assumes n: "map_of m (t_key t) = None" and ni: "\<not> inherited (t_key t)"
    and p: "map_of m (t_parent t) = Some pv" and r: "touch_table t m = Inr m'"
  shows "\<exists>pv' nd. m' = AList.update (t_parent t) pv' m @ [(t_key t, nd)] \<and>
           kids pv' = kids pv @ [t_key t] \<and>
           (case pv of Holder ks \<Rightarrow> pv' = Holder (ks @ [t_key t])
            | Made i nm fo kd ch \<Rightarrow> ch \<noteq> None \<and> pv' = Made i nm fo kd (Some (the ch @ [t_key t]))) \<and>
           kids nd = [] \<and>
           nd = Made (t_key t) (t_part t) (entry_type (t_entry t) = ''tree'' \<or> \<not> t_last t)
                  (if entry_type (t_entry t) = ''tree'' \<or> \<not> t_last t then None else flat_kind (t_part t))
                  (if entry_type (t_entry t) = ''tree'' \<or> \<not> t_last t then Some [] else None)"
proof -
  let ?fo = "entry_type (t_entry t) = ''tree'' \<or> \<not> t_last t"
  let ?nd = "Made (t_key t) (t_part t) ?fo (if ?fo then None else flat_kind (t_part t))
                  (if ?fo then Some [] else None)"
  let ?m1 = "m @ [(t_key t, ?nd)]"
  have pk: "t_parent t \<noteq> t_key t" using n p by auto
  have pin: "t_parent t \<in> fst ` set m" using p by (metis map_of_eq_None_iff option.distinct(1))
  have p1: "map_of ?m1 (t_parent t) = Some pv" using p by (simp add: map_add_def)
  have r1: "push_child ?m1 (t_parent t) (t_key t) = Inr m'"
    using r n ni p1 by (auto simp add: touch_table_def in_table_def Let_def split: if_splits)
  have u: "AList.update (t_parent t) x ?m1 = AList.update (t_parent t) x m @ [(t_key t, ?nd)]" for x
    using pin by (rule update_append_in)
  show ?thesis
  proof (cases pv)
    case (Holder ks)
    then have "m' = AList.update (t_parent t) (Holder (ks @ [t_key t])) m @ [(t_key t, ?nd)]"
      using r1 p1 u by (simp add: push_child_def)
    then show ?thesis using Holder by (intro exI [of _ "Holder (ks @ [t_key t])"] exI [of _ ?nd]) simp
  next
    case (Made i nm fo kd ch)
    show ?thesis
    proof (cases ch)
      case None
      then show ?thesis using r1 p1 Made by (simp add: push_child_def)
    next
      case (Some ks)
      then have "m' = AList.update (t_parent t) (Made i nm fo kd (Some (ks @ [t_key t]))) m @ [(t_key t, ?nd)]"
        using r1 p1 u Made by (simp add: push_child_def)
      then show ?thesis using Made Some
        by (intro exI [of _ "Made i nm fo kd (Some (ks @ [t_key t]))"] exI [of _ ?nd]) simp
    qed
  qed
qed


lemma entry_ok_mono:
  "entry_ok T m k v \<Longrightarrow> entry_ok (T @ ts) m k v"
  by (auto simp add: entry_ok_def created_mono split: mapped.splits)

lemma table_inv_known:
  assumes "table_inv T m" "map_of m (t_key t) \<noteq> None"
  shows "table_inv (T @ [t]) m"
  using assms by (auto simp add: table_inv_def entry_ok_mono)

lemma under_db_child: "under_db p \<or> p = ''database'' \<Longrightarrow> c = p @ ''/'' @ part \<Longrightarrow> under_db c"
  unfolding under_db_def by auto

lemma under_db_not_inherited: "under_db k \<Longrightarrow> \<not> inherited k"
  unfolding under_db_def using not_inherited_db(2) by blast

lemma under_db_not_db: "under_db k \<Longrightarrow> k \<noteq> ''database''"
  unfolding under_db_def by auto

lemma table_inv_new:
  assumes inv: "table_inv T m"
    and new: "map_of m (t_key t) = None"
    and link: "t_parent t = prev" "t_key t = prev @ ''/'' @ t_part t" "CHR ''/'' \<notin> set (t_part t)"
    and prev: "map_of m prev = Some pv"
    and r: "touch_table t m = Inr m'"
  shows "table_inv (T @ [t]) m'"
proof -
  let ?key = "t_key t"
  let ?fo = "entry_type (t_entry t) = ''tree'' \<or> \<not> t_last t"
  have dist: "distinct (map fst m)" and db: "\<exists>ks. map_of m ''database'' = Some (Holder ks)"
    and ok: "\<And>k v. map_of m k = Some v \<Longrightarrow> entry_ok T m k v"
    and touched: "\<And>t'. t' \<in> set T \<Longrightarrow> map_of m (t_key t') \<noteq> None"
    using inv by (auto simp add: table_inv_def)
  have okp: "entry_ok T m prev pv" using prev by (rule ok)
  have "under_db prev \<or> prev = ''database''"
    using okp by (cases pv) (auto simp add: entry_ok_def)
  then have under: "under_db ?key" using link(2) by (rule under_db_child)
  have ni: "\<not> inherited ?key" using under by (rule under_db_not_inherited)
  have pk: "prev \<noteq> ?key" using link(2) by simp
  have p': "map_of m (t_parent t) = Some pv" using prev link(1) by simp
  obtain pv' nd where m': "m' = AList.update prev pv' m @ [(?key, nd)]"
    and kpv: "kids pv' = kids pv @ [?key]"
    and shape: "case pv of Holder ks \<Rightarrow> pv' = Holder (ks @ [?key])
            | Made i nm fo kd ch \<Rightarrow> ch \<noteq> None \<and> pv' = Made i nm fo kd (Some (the ch @ [?key]))"
    and knd: "kids nd = []"
    and nd: "nd = Made ?key (t_part t) ?fo (if ?fo then None else flat_kind (t_part t))
                  (if ?fo then Some [] else None)"
    using touch_new [OF new ni p' r] link(1) by auto
  have pin: "prev \<in> set (map fst m)" using prev by (metis map_of_None_keys option.distinct(1))
  have knew: "?key \<notin> set (map fst m)" using new by (simp add: map_of_None_keys)
  have keys: "map fst m' = map fst m @ [?key]" using m' pin by (simp add: update_keys)
  have mo: "map_of m' k = (if k = ?key then Some nd else if k = prev then Some pv' else map_of m k)" for k
    using new pk by (auto simp add: m' map_add_def update_conv' split: option.splits)
  have grow: "map_of m' k \<noteq> None" if "map_of m k \<noteq> None" for k
    using that by (simp add: mo)
  have kids_grow: "\<exists>w'. map_of m' p = Some w' \<and> set (kids w) \<subseteq> set (kids w')"
    if "map_of m p = Some w" for p w
  proof (cases "p = prev")
    case True
    then show ?thesis using that prev pk kpv by (auto simp add: mo)
  next
    case False
    then show ?thesis using that new by (auto simp add: mo)
  qed
  have parent_keep: "has_parent m' k" if "has_parent m k" for k
    using that kids_grow unfolding has_parent_def by blast
  have kids_keep: "kids_ok m' k v" if "kids_ok m k v" for k v
    using that grow unfolding kids_ok_def by blast
  have old_kid: "map_of m c \<noteq> None" if "c \<in> set (kids pv)" for c
    using okp that by (auto simp add: entry_ok_def kids_ok_def)
  have fresh_kid: "?key \<notin> set (kids pv)" using old_kid new by blast
  have "\<forall>t' \<in> set T. t_key t' \<noteq> ?key"
    using touched new by metis
  then have cr: "created (T @ [t]) ?key (t_part t) ?fo"
    by (rule created_new)
  have hp: "has_parent m' ?key"
    unfolding has_parent_def using kpv pk by (auto simp add: mo)
  have ok_nd: "entry_ok (T @ [t]) m' ?key nd"
    using under cr hp by (auto simp add: entry_ok_def kids_ok_def nd)
  have ok_old: "entry_ok (T @ [t]) m' k v" if "map_of m k = Some v" for k v
  proof -
    have "entry_ok T m k v" using that(1) by (rule ok)
    then show ?thesis
      using kids_keep parent_keep
      by (auto simp add: entry_ok_def created_mono split: mapped.splits)
  qed
  have kp: "kids_ok m' prev pv'"
  proof -
    have "kids_ok m prev pv" using okp by (simp add: entry_ok_def)
    moreover have "child_of prev ?key" using link(2,3) unfolding child_of_def by blast
    moreover have "map_of m' ?key \<noteq> None" by (simp add: mo)
    ultimately show ?thesis using fresh_kid grow kpv by (auto simp add: kids_ok_def)
  qed
  have okp': "entry_ok (T @ [t]) m' prev pv" using prev by (rule ok_old)
  have ok_prev: "entry_ok (T @ [t]) m' prev pv'"
  proof (cases pv)
    case (Holder ks)
    then show ?thesis using okp' shape kp by (auto simp add: entry_ok_def)
  next
    case (Made i nm fo kd ch)
    then show ?thesis using okp' shape kp by (auto simp add: entry_ok_def)
  qed
  have all_ok: "entry_ok (T @ [t]) m' k v" if "map_of m' k = Some v" for k v
    using that ok_nd ok_prev ok_old by (auto simp add: mo split: if_splits)
  have d': "distinct (map fst m')" using dist knew by (simp add: keys)
  have db': "\<exists>ks. map_of m' ''database'' = Some (Holder ks)"
  proof (cases "prev = ''database''")
    case True
    then show ?thesis using db prev shape pk by (auto simp add: mo)
  next
    case False
    then show ?thesis using db under_db_not_db [OF under] by (auto simp add: mo)
  qed
  have t': "\<forall>t' \<in> set (T @ [t]). map_of m' (t_key t') \<noteq> None"
    using touched grow by (auto simp add: mo)
  show ?thesis unfolding table_inv_def using d' db' all_ok t' by blast
qed

text \<open>The invariant holds along every chained sequence of steps that does not throw.\<close>

lemma table_inv_run:
  "table_inv T m \<Longrightarrow> map_of m prev \<noteq> None \<Longrightarrow> chained prev ts \<Longrightarrow>
   forEach touch_table ts m = Inr m' \<Longrightarrow> table_inv (T @ ts) m'"
proof (induction ts arbitrary: T m prev)
  case Nil
  then show ?case by simp
next
  case (Cons t ts)
  obtain m1 where m1: "touch_table t m = Inr m1" "forEach touch_table ts m1 = Inr m'"
    using Cons.prems(4) by (auto split: sum.splits)
  have c: "chained (t_key t) ts" using Cons.prems(3) by simp
  have inv1: "table_inv (T @ [t]) m1"
  proof (cases "map_of m (t_key t) = None")
    case False
    then have "m1 = m" using m1(1) by (simp add: touch_known)
    then show ?thesis using Cons.prems(1) False by (simp add: table_inv_known)
  next
    case True
    have "t_key t \<noteq> ''database''" using Cons.prems(1) True by (auto simp add: table_inv_def)
    then have l: "t_parent t = prev" "t_key t = prev @ ''/'' @ t_part t" "CHR ''/'' \<notin> set (t_part t)"
      using Cons.prems(3) by auto
    obtain pv where "map_of m prev = Some pv" using Cons.prems(2) by blast
    with Cons.prems(1) True l show ?thesis using m1(1) by (rule table_inv_new)
  qed
  have "\<forall>t' \<in> set (T @ [t]). map_of m1 (t_key t') \<noteq> None"
    using inv1 unfolding table_inv_def by blast
  then have "map_of m1 (t_key t) \<noteq> None" by simp
  then have "table_inv ((T @ [t]) @ ts) m'" using inv1 c m1(2) by (intro Cons.IH [of "T @ [t]" m1 "t_key t"])
  then show ?case by simp
qed

lemma table_inv_start: "table_inv [] [(''database'', Holder [])]"
  by (simp add: table_inv_def entry_ok_def kids_ok_def)

lemma split_on_parts: "\<forall>p \<in> set (split_on c s). c \<notin> set p"
  by (induction s) (auto split: list.splits)

lemma split_on_nonempty: "split_on c s \<noteq> []"
  by (induction s) (auto split: list.splits)

lemma join_split: "concat (map ((#) c) (split_on c s)) = c # s"
  by (induction s) (auto split: list.splits)

lemma startsWith_split: "startsWith s p \<Longrightarrow> \<exists>r. s = p @ r"
  by (metis append_take_drop_id startsWith_def)

lemma split_db:
  assumes "startsWith p ''database/''"
  shows "split_on CHR ''/'' p = ''database'' # split_on CHR ''/'' (drop 9 p)"
proof -
  obtain r where r0: "p = ''database/'' @ r" using startsWith_split [OF assms] by blast
  then have r: "p = ''database/'' @ r" "drop 9 p = r" by simp_all
  have "split_on CHR ''/'' (''database/'' @ r) = ''database'' # split_on CHR ''/'' r"
    using split_on_nonempty [of "CHR ''/''" r] by (simp split: list.splits)
  then show ?thesis using r by simp
qed

lemma keys_touches: "map t_key (touches n len i cur ps) = joins cur ps"
  by (induction ps arbitrary: i cur) (simp_all add: Let_def)

lemma entry_of_touches: "t \<in> set (touches n len i cur ps) \<Longrightarrow> t_entry t = n"
  by (induction ps arbitrary: i cur) (auto simp add: Let_def)

lemma chained_touches:
  "\<forall>p \<in> set ps. CHR ''/'' \<notin> set p \<Longrightarrow> cur \<noteq> [] \<Longrightarrow> chained cur (touches n len i cur ps)"
  by (induction ps arbitrary: i cur) (simp_all add: Let_def)

lemma nonlast_touches:
  "i + length ps = len \<Longrightarrow>
   map t_key (filter (\<lambda>t. \<not> t_last t) (touches n len i cur ps)) = butlast (joins cur ps)"
proof (induction ps arbitrary: i cur)
  case Nil
  then show ?case by simp
next
  case (Cons part ps)
  have "i < len - 1 \<longleftrightarrow> ps \<noteq> []" using Cons.prems by auto
  moreover have "joins c ps = [] \<longleftrightarrow> ps = []" for c by (cases ps) (simp_all add: Let_def)
  ultimately show ?case using Cons.IH [of "Suc i"] Cons.prems by (simp add: Let_def)
qed

lemma last_touches:
  "i + length ps = len \<Longrightarrow> t \<in> set (touches n len i cur ps) \<Longrightarrow> t_last t \<Longrightarrow>
   t_key t = last (joins cur ps)"
proof (induction ps arbitrary: i cur)
  case Nil
  then show ?case by simp
next
  case (Cons part ps)
  have l: "i < len - 1 \<longleftrightarrow> ps \<noteq> []" using Cons.prems(1) by auto
  have j: "joins c ps = [] \<longleftrightarrow> ps = []" for c by (cases ps) (simp_all add: Let_def)
  let ?c = "if cur \<noteq> [] then cur @ ''/'' @ part else part"
  show ?case
  proof (cases "t \<in> set (touches n len (Suc i) ?c ps)")
    case True
    then have "t_key t = last (joins ?c ps)" using Cons.IH [of "Suc i" ?c] Cons.prems by simp
    moreover have "ps \<noteq> []" using True by auto
    ultimately show ?thesis using j by (simp add: Let_def)
  next
    case False
    then have t: "t = \<lparr>t_entry = n, t_last = (\<not> i < len - 1), t_parent = cur, t_key = ?c, t_part = part\<rparr>"
      using Cons.prems(2) by (simp add: Let_def)
    then have "ps = []" using Cons.prems(3) l by simp
    then show ?thesis using t by (simp add: Let_def)
  qed
qed

lemma last_joins:
  "cur \<noteq> [] \<Longrightarrow> last (cur # joins cur ps) = cur @ concat (map ((#) CHR ''/'') ps)"
proof (induction ps arbitrary: cur)
  case Nil
  then show ?case by simp
next
  case (Cons part ps)
  have "last (cur # joins cur (part # ps)) = last ((cur @ ''/'' @ part) # joins (cur @ ''/'' @ part) ps)"
    using Cons.prems by (simp add: Let_def)
  also have "\<dots> = (cur @ ''/'' @ part) @ concat (map ((#) CHR ''/'') ps)"
    by (rule Cons.IH) simp
  finally show ?case by simp
qed

text \<open>The steps of an entry below \<^verbatim>\<open>database/\<close>.\<close>

lemma entry_touches_db:
  assumes "startsWith (entry_path e) ''database/''"
  shows "\<exists>t0 rest. entry_touches e = t0 # rest \<and> t_key t0 = ''database'' \<and> chained ''database'' rest"
    and "path_keys (entry_path e) = map t_key (entry_touches e)"
    and "last (path_keys (entry_path e)) = entry_path e"
    and "path_keys (entry_path e) \<noteq> []"
proof -
  let ?r = "split_on CHR ''/'' (drop 9 (entry_path e))"
  have s: "split_on CHR ''/'' (entry_path e) = ''database'' # ?r" using assms by (rule split_db)
  have c: "chained ''database'' (touches e (Suc (length ?r)) (Suc 0) ''database'' ?r)"
    by (rule chained_touches) (simp_all add: split_on_parts)
  show "\<exists>t0 rest. entry_touches e = t0 # rest \<and> t_key t0 = ''database'' \<and> chained ''database'' rest"
    using c by (simp add: entry_touches_def s Let_def)
  show k: "path_keys (entry_path e) = map t_key (entry_touches e)"
    by (simp add: path_keys_def entry_touches_def keys_touches Let_def)
  obtain r where "entry_path e = ''database/'' @ r" using startsWith_split [OF assms] by blast
  then have "entry_path e = ''database/'' @ drop 9 (entry_path e)" by simp
  moreover have "last (path_keys (entry_path e)) = ''database'' @ concat (map ((#) CHR ''/'') ?r)"
    using last_joins [of "''database''" ?r] by (simp add: path_keys_def s Let_def)
  ultimately show "last (path_keys (entry_path e)) = entry_path e"
    by (simp add: join_split)
  show "path_keys (entry_path e) \<noteq> []" by (simp add: path_keys_def s Let_def)
qed

lemma chained_append_any:
  "chained p xs \<Longrightarrow> (\<And>q. chained q ys) \<Longrightarrow> chained p (xs @ ys)"
  by (induction xs arbitrary: p) simp_all

lemma chained_entries:
  "\<forall>e \<in> set L. startsWith (entry_path e) ''database/'' \<Longrightarrow> chained q (concat (map entry_touches L))"
proof (induction L arbitrary: q)
  case Nil
  then show ?case by simp
next
  case (Cons e L)
  obtain t0 rest where t: "entry_touches e = t0 # rest" "t_key t0 = ''database''" "chained ''database'' rest"
    using entry_touches_db(1) [of e] Cons.prems by auto
  have "chained q (entry_touches e)" using t by simp
  moreover have "\<And>q'. chained q' (concat (map entry_touches L))" using Cons by simp
  ultimately show ?case by (simp add: chained_append_any)
qed

lemma rawNodes_db: "\<forall>e \<in> set (rawNodes tree). startsWith (entry_path e) ''database/''"
  by (simp add: rawNodes_def)

text \<open>The table after a run of the builder that does not throw.\<close>

lemma final_table_inv:
  assumes "forEach visit_entry (rawNodes tree) [(''database'', Holder [])] = Inr m"
  shows "table_inv (concat (map entry_touches (rawNodes tree))) m"
proof -
  let ?T = "concat (map entry_touches (rawNodes tree))"
  have r: "forEach touch_table ?T [(''database'', Holder [])] = Inr m"
    using assms by (simp add: forEach_entries)
  have c: "chained ''database'' ?T" using rawNodes_db by (rule chained_entries)
  have "table_inv ([] @ ?T) m"
    using table_inv_start _ c r by (rule table_inv_run) simp
  then show ?thesis by simp
qed

lemma those_all2: "those (map f ks) = Some cs \<Longrightarrow> list_all2 (\<lambda>k n. f k = Some n) ks cs"
  by (induction ks arbitrary: cs) (auto split: option.splits)

lemma build_table_mono: "set (build_table rest) \<subseteq> set (build_table (x # rest))"
  by (cases x) (auto simp add: Let_def split: mapped.splits option.splits)

lemma bt_entry:
  "(k, nd) \<in> set (build_table m) \<Longrightarrow>
   \<exists>nm fo kd ch. (k, Made (node_id nd) nm fo kd ch) \<in> set m \<and>
      node_name nd = nm \<and> isFolder nd = fo \<and> kind nd = kd \<and> node_data nd = None \<and>
      (case ch of
         None \<Rightarrow> children nd = None
       | Some ks \<Rightarrow> \<exists>cs. children nd = Some cs \<and>
                     list_all2 (\<lambda>c n. (c, n) \<in> set (build_table m)) ks cs)"
proof (induction m)
  case Nil
  then show ?case by simp
next
  case (Cons x rest)
  obtain k0 v0 where x: "x = (k0, v0)" by (cases x)
  let ?tbl = "build_table rest"
  have mono: "set ?tbl \<subseteq> set (build_table (x # rest))" by (rule build_table_mono)
  show ?case
  proof (cases "(k, nd) \<in> set ?tbl")
    case True
    then obtain nm fo kd ch where o: "(k, Made (node_id nd) nm fo kd ch) \<in> set rest"
      "node_name nd = nm" "isFolder nd = fo" "kind nd = kd" "node_data nd = None"
      "case ch of None \<Rightarrow> children nd = None
       | Some ks \<Rightarrow> \<exists>cs. children nd = Some cs \<and> list_all2 (\<lambda>c n. (c, n) \<in> set ?tbl) ks cs"
      using Cons.IH by blast
    have "case ch of None \<Rightarrow> children nd = None
       | Some ks \<Rightarrow> \<exists>cs. children nd = Some cs \<and>
           list_all2 (\<lambda>c n. (c, n) \<in> set (build_table (x # rest))) ks cs"
    proof (cases ch)
      case None
      then show ?thesis using o(6) by simp
    next
      case (Some ks)
      then obtain cs where cs: "children nd = Some cs" "list_all2 (\<lambda>c n. (c, n) \<in> set ?tbl) ks cs"
        using o(6) by auto
      have "list_all2 (\<lambda>c n. (c, n) \<in> set (build_table (x # rest))) ks cs"
        using cs(2) by (rule list_all2_mono) (use mono in blast)
      then show ?thesis using Some cs(1) by simp
    qed
    then show ?thesis using o by (intro exI [of _ nm] exI [of _ fo] exI [of _ kd] exI [of _ ch]) simp
  next
    case False
    show ?thesis
    proof (cases v0)
      case (Holder ks)
      then show ?thesis using Cons.prems False x by simp
    next
      case (Made i nm fo kd ch)
      show ?thesis
      proof (cases ch)
        case None
        then have "k = k0" "nd = Node i nm fo kd None None"
          using Cons.prems False x Made by (auto simp add: Let_def)
        then show ?thesis using x Made None
          by (intro exI [of _ nm] exI [of _ fo] exI [of _ kd] exI [of _ ch]) simp
      next
        case (Some ks)
        then obtain cs where cs: "those (map (map_of ?tbl) ks) = Some cs"
          and knd: "k = k0" "nd = Node i nm fo kd (Some cs) None"
          using Cons.prems False x Made by (auto simp add: Let_def split: option.splits)
        have "list_all2 (\<lambda>c n. map_of ?tbl c = Some n) ks cs" using cs by (rule those_all2)
        then have "list_all2 (\<lambda>c n. (c, n) \<in> set (build_table (x # rest))) ks cs"
        proof (rule list_all2_mono)
          fix c n assume "map_of ?tbl c = Some n"
          then have "(c, n) \<in> set ?tbl" by (rule map_of_SomeD)
          then show "(c, n) \<in> set (build_table (x # rest))" using mono by blast
        qed
        then show ?thesis using x Made Some knd
          by (intro exI [of _ nm] exI [of _ fo] exI [of _ kd] exI [of _ ch]) simp
      qed
    qed
  qed
qed

lemma all2_right: "list_all2 R ks cs \<Longrightarrow> n \<in> set cs \<Longrightarrow> \<exists>c \<in> set ks. R c n"
  by (induction rule: list_all2_induct) auto

lemma bt_descendants:
  "(k, nd) \<in> set (build_table m) \<Longrightarrow> n \<in> set (all_nodes nd) \<Longrightarrow> \<exists>k'. (k', n) \<in> set (build_table m)"
proof (induction nd arbitrary: k rule: all_nodes.induct)
  case (1 i nm f kd cs d)
  show ?case
  proof (cases "n = Node i nm f kd cs d")
    case True
    then show ?thesis using "1.prems"(1) by blast
  next
    case False
    then obtain ns c where c: "cs = Some ns" "c \<in> set ns" "n \<in> set (all_nodes c)"
      using "1.prems"(2) by (auto split: option.splits)
    obtain nm' fo' kd' ch where e: "case ch of None \<Rightarrow> children (Node i nm f kd cs d) = None
       | Some ks \<Rightarrow> \<exists>cs'. children (Node i nm f kd cs d) = Some cs' \<and>
           list_all2 (\<lambda>c n. (c, n) \<in> set (build_table m)) ks cs'"
      using bt_entry [OF "1.prems"(1)] by blast
    then obtain ks where "list_all2 (\<lambda>c n. (c, n) \<in> set (build_table m)) ks ns"
      using c(1) by (cases ch) auto
    then have "\<exists>kc \<in> set ks. (kc, c) \<in> set (build_table m)" using c(2) by (rule all2_right)
    then obtain kc where "(kc, c) \<in> set (build_table m)" by blast
    then show ?thesis using "1.IH" [OF c(1) c(2)] c(3) by blast
  qed
qed

text \<open>Every node of the tree is a node of the table, under its id.\<close>

lemma tree_node_in_table:
  assumes inv: "table_inv T m" and rt: "root_tree m = Some t" and n: "n \<in> set (tree_nodes t)"
  shows "\<exists>ch. map_of m (node_id n) = Some (Made (node_id n) (node_name n) (isFolder n) (kind n) ch) \<and>
           node_data n = None"
proof -
  obtain ks where ks: "map_of m ''database'' = Some (Holder ks)"
    "those (map (map_of (build_table m)) ks) = Some t"
    using rt by (auto simp add: root_tree_def split: option.splits mapped.splits)
  obtain r where r: "r \<in> set t" "n \<in> set (all_nodes r)" using n by (auto simp add: tree_nodes_def)
  have "list_all2 (\<lambda>c x. map_of (build_table m) c = Some x) ks t" using ks(2) by (rule those_all2)
  then have "\<exists>c \<in> set ks. map_of (build_table m) c = Some r" using r(1) by (rule all2_right)
  then obtain c where "map_of (build_table m) c = Some r" by blast
  then have "(c, r) \<in> set (build_table m)" by (rule map_of_SomeD)
  then obtain k' where "(k', n) \<in> set (build_table m)" using r(2) bt_descendants by blast
  then obtain nm fo kd ch where e: "(k', Made (node_id n) nm fo kd ch) \<in> set m"
    "node_name n = nm" "isFolder n = fo" "kind n = kd" "node_data n = None"
    using bt_entry by blast
  have d: "distinct (map fst m)" using inv by (simp add: table_inv_def)
  have mo: "map_of m k' = Some (Made (node_id n) nm fo kd ch)" using d e(1) by (rule map_of_is_SomeI)
  then have "entry_ok T m k' (Made (node_id n) nm fo kd ch)" using inv by (simp add: table_inv_def)
  then have "node_id n = k'" by (simp add: entry_ok_def)
  then show ?thesis using mo e by auto
qed

lemma takeWhile_part:
  "CHR ''/'' \<notin> set p \<Longrightarrow> s = [] \<or> (\<exists>r. s = ''/'' @ r) \<Longrightarrow> takeWhile (\<lambda>c. c \<noteq> CHR ''/'') (p @ s) = p"
  by (induction p) auto

lemma child_below: "child_of k c \<Longrightarrow> below c x \<Longrightarrow> below k x \<and> x \<noteq> k"
  by (auto simp add: child_of_def below_def)

lemma siblings_disjoint:
  assumes "child_of k c1" "child_of k c2" "below c1 x" "below c2 x"
  shows "c1 = c2"
proof -
  obtain p1 where p1: "c1 = k @ ''/'' @ p1" "CHR ''/'' \<notin> set p1" using assms(1) by (auto simp add: child_of_def)
  obtain p2 where p2: "c2 = k @ ''/'' @ p2" "CHR ''/'' \<notin> set p2" using assms(2) by (auto simp add: child_of_def)
  obtain s1 where s1: "x = c1 @ s1" "s1 = [] \<or> (\<exists>r. s1 = ''/'' @ r)" using assms(3) by (auto simp add: below_def)
  obtain s2 where s2: "x = c2 @ s2" "s2 = [] \<or> (\<exists>r. s2 = ''/'' @ r)" using assms(4) by (auto simp add: below_def)
  have "p1 @ s1 = p2 @ s2" using s1(1) s2(1) p1(1) p2(1) by simp
  then have "takeWhile (\<lambda>c. c \<noteq> CHR ''/'') (p1 @ s1) = takeWhile (\<lambda>c. c \<noteq> CHR ''/'') (p2 @ s2)" by simp
  then have "p1 = p2" using takeWhile_part [OF p1(2) s1(2)] takeWhile_part [OF p2(2) s2(2)] by simp
  then show ?thesis using p1(1) p2(1) by simp
qed

lemma concat_distinct:
  assumes "list_all2 R ks cs" "distinct ks" "\<forall>c \<in> set ks. child_of k c"
    "\<And>c n. c \<in> set ks \<Longrightarrow> n \<in> set cs \<Longrightarrow> R c n \<Longrightarrow> distinct (f n) \<and> (\<forall>x \<in> set (f n). below c x)"
  shows "distinct (concat (map f cs)) \<and> (\<forall>x \<in> set (concat (map f cs)). \<exists>c \<in> set ks. below c x)"
  using assms
proof (induction rule: list_all2_induct)
  case Nil
  then show ?case by simp
next
  case (Cons c ks n cs)
  have here: "distinct (f n)" "\<forall>x \<in> set (f n). below c x" using Cons.prems(3) [of c n] Cons.hyps(1) by auto
  have rest: "distinct (concat (map f cs)) \<and> (\<forall>x \<in> set (concat (map f cs)). \<exists>c \<in> set ks. below c x)"
  proof (rule Cons.IH)
    show "distinct ks" using Cons.prems(1) by simp
    show "\<forall>c \<in> set ks. child_of k c" using Cons.prems(2) by simp
    fix c' n' assume "c' \<in> set ks" "n' \<in> set cs" "R c' n'"
    then show "distinct (f n') \<and> (\<forall>x \<in> set (f n'). below c' x)" using Cons.prems(3) [of c' n'] by simp
  qed
  have disj: "set (f n) \<inter> set (concat (map f cs)) = {}"
  proof (rule ccontr)
    assume "set (f n) \<inter> set (concat (map f cs)) \<noteq> {}"
    then obtain x where x: "x \<in> set (f n)" "x \<in> set (concat (map f cs))" by blast
    obtain c' where c': "c' \<in> set ks" "below c' x" using rest x(2) by blast
    have "below c x" using here(2) x(1) by blast
    moreover have "child_of k c" "child_of k c'" using Cons.prems(2) c'(1) by auto
    ultimately have "c = c'" using c'(2) siblings_disjoint by blast
    then show False using c'(1) Cons.prems(1) by simp
  qed
  have "distinct (concat (map f (n # cs)))" using here(1) rest disj by simp
  moreover have "\<forall>x \<in> set (concat (map f (n # cs))). \<exists>c \<in> set (c # ks). below c x"
    using here(2) rest by auto
  ultimately show ?case by blast
qed


lemma ids_Node:
  "ids (Node i nm f kd cs d) = i # (case cs of None \<Rightarrow> [] | Some ns \<Rightarrow> concat (map ids ns))"
  by (cases cs) (simp_all add: ids_def [abs_def] map_concat comp_def)

lemma bt_distinct:
  assumes inv: "table_inv T m"
  shows "(k, nd) \<in> set (build_table m) \<Longrightarrow> distinct (ids nd) \<and> (\<forall>x \<in> set (ids nd). below k x)"
proof (induction nd arbitrary: k rule: all_nodes.induct)
  case (1 i nm f kd cs d)
  let ?nd = "Node i nm f kd cs d"
  obtain nm' fo' kd' ch where e: "(k, Made (node_id ?nd) nm' fo' kd' ch) \<in> set m"
    "case ch of None \<Rightarrow> children ?nd = None
       | Some ks \<Rightarrow> \<exists>cs'. children ?nd = Some cs' \<and>
           list_all2 (\<lambda>c n. (c, n) \<in> set (build_table m)) ks cs'"
    using bt_entry [OF "1.prems"] by blast
  have d: "distinct (map fst m)" using inv by (simp add: table_inv_def)
  have mo: "map_of m k = Some (Made i nm' fo' kd' ch)" using map_of_is_SomeI [OF d e(1)] by simp
  then have ok: "entry_ok T m k (Made i nm' fo' kd' ch)" using inv by (simp add: table_inv_def)
  then have ik: "i = k" by (simp add: entry_ok_def)
  show ?case
  proof (cases ch)
    case None
    then have "cs = None" using e(2) by simp
    then show ?thesis using ik by (simp add: ids_Node below_def)
  next
    case (Some ks)
    then obtain ns where cs: "cs = Some ns" and all2: "list_all2 (\<lambda>c n. (c, n) \<in> set (build_table m)) ks ns"
      using e(2) by auto
    have kok: "kids_ok m k (Made i nm' fo' kd' ch)" using ok unfolding entry_ok_def by (rule conjunct1)
    have dk: "distinct ks" and ck: "\<forall>c \<in> set ks. child_of k c"
      using kok Some by (auto simp add: kids_ok_def)
    have sub: "distinct (concat (map ids ns)) \<and>
          (\<forall>x \<in> set (concat (map ids ns)). \<exists>c \<in> set ks. below c x)"
      using all2 dk ck
    proof (rule concat_distinct)
      fix c n assume "c \<in> set ks" "n \<in> set ns" "(c, n) \<in> set (build_table m)"
      then show "distinct (ids n) \<and> (\<forall>x \<in> set (ids n). below c x)"
        using "1.IH" [OF cs, of n c] by simp
    qed
    have under: "\<forall>x \<in> set (concat (map ids ns)). below k x \<and> x \<noteq> k"
    proof
      fix x assume "x \<in> set (concat (map ids ns))"
      then obtain c where "c \<in> set ks" "below c x" using sub by blast
      then show "below k x \<and> x \<noteq> k" using ck child_below by blast
    qed
    have "ids ?nd = k # concat (map ids ns)" using cs ik by (simp add: ids_Node)
    moreover have "below k k" by (simp add: below_def)
    ultimately show ?thesis using sub under by auto
  qed
qed

lemma tree_ids_distinct:
  assumes inv: "table_inv T m" and rt: "root_tree m = Some t"
  shows "distinct (map node_id (tree_nodes t))"
proof -
  obtain ks where ks: "map_of m ''database'' = Some (Holder ks)"
    "those (map (map_of (build_table m)) ks) = Some t"
    using rt by (auto simp add: root_tree_def split: option.splits mapped.splits)
  have all2: "list_all2 (\<lambda>c x. map_of (build_table m) c = Some x) ks t" using ks(2) by (rule those_all2)
  have "entry_ok T m ''database'' (Holder ks)" using inv ks(1) by (simp add: table_inv_def)
  then have kok: "kids_ok m ''database'' (Holder ks)" unfolding entry_ok_def by (rule conjunct1)
  have dk: "distinct ks" and ck: "\<forall>c \<in> set ks. child_of ''database'' c"
    using kok by (auto simp add: kids_ok_def)
  have "distinct (concat (map ids t)) \<and> (\<forall>x \<in> set (concat (map ids t)). \<exists>c \<in> set ks. below c x)"
    using all2 dk ck
  proof (rule concat_distinct)
    fix c n assume "map_of (build_table m) c = Some n"
    then have "(c, n) \<in> set (build_table m)" by (rule map_of_SomeD)
    then show "distinct (ids n) \<and> (\<forall>x \<in> set (ids n). below c x)" by (rule bt_distinct [OF inv])
  qed
  moreover have "map node_id (tree_nodes t) = concat (map ids t)"
    by (simp add: tree_nodes_def ids_def [abs_def] map_concat comp_def)
  ultimately show ?thesis by simp
qed

lemma joins_child:
  "cur \<noteq> [] \<Longrightarrow> \<forall>p \<in> set ps. CHR ''/'' \<notin> set p \<Longrightarrow> k \<in> set (butlast (cur # joins cur ps)) \<Longrightarrow>
   \<exists>c \<in> set (joins cur ps). child_of k c"
proof (induction ps arbitrary: cur)
  case Nil
  then show ?case by simp
next
  case (Cons part ps)
  let ?c = "cur @ ''/'' @ part"
  have j: "joins cur (part # ps) = ?c # joins ?c ps" using Cons.prems(1) by (simp add: Let_def)
  have "k = cur \<or> k \<in> set (butlast (?c # joins ?c ps))" using Cons.prems(3) j by simp
  then show ?case
  proof
    assume "k = cur"
    then have "child_of k ?c" using Cons.prems(2) by (auto simp add: child_of_def)
    then show ?thesis using j by simp
  next
    assume "k \<in> set (butlast (?c # joins ?c ps))"
    moreover have "?c \<noteq> []" by simp
    moreover have "\<forall>p \<in> set ps. CHR ''/'' \<notin> set p" using Cons.prems(2) by simp
    ultimately have "\<exists>c \<in> set (joins ?c ps). child_of k c" using Cons.IH [of ?c] by blast
    then show ?thesis using j by auto
  qed
qed

lemma child_parent_unique:
  assumes "child_of p c" "child_of k c"
  shows "p = k"
proof -
  obtain a where a: "c = p @ ''/'' @ a" "CHR ''/'' \<notin> set a" using assms(1) by (auto simp add: child_of_def)
  obtain b where b: "c = k @ ''/'' @ b" "CHR ''/'' \<notin> set b" using assms(2) by (auto simp add: child_of_def)
  have ra: "rev c = rev a @ ''/'' @ rev p" using a(1) by simp
  have rb: "rev c = rev b @ ''/'' @ rev k" using b(1) by simp
  have "takeWhile (\<lambda>x. x \<noteq> CHR ''/'') (rev a @ ''/'' @ rev p) = rev a"
    using a(2) by (intro takeWhile_part) auto
  moreover have "takeWhile (\<lambda>x. x \<noteq> CHR ''/'') (rev b @ ''/'' @ rev k) = rev b"
    using b(2) by (intro takeWhile_part) auto
  ultimately have "rev a = rev b" using ra rb by metis
  then have "a = b" by simp
  then show ?thesis using a(1) b(1) by simp
qed

lemma not_child_db: "\<not> child_of k ''database''"
proof
  assume "child_of k ''database''"
  then obtain part where "''database'' = k @ ''/'' @ part" by (auto simp add: child_of_def)
  then have "set ''database'' = set (k @ ''/'' @ part)" by (rule arg_cong)
  then have "CHR ''/'' \<in> set ''database''" by simp
  then show False by simp
qed

lemma concat_split:
  "concat (map f L) = T1 @ t # T2 \<Longrightarrow>
   \<exists>L1 e L2 a b. L = L1 @ e # L2 \<and> f e = a @ t # b \<and> T1 = concat (map f L1) @ a"
proof (induction L arbitrary: T1)
  case Nil
  then show ?case by simp
next
  case (Cons e L)
  then have "f e @ concat (map f L) = T1 @ t # T2" by simp
  then obtain us where "(f e = T1 @ us \<and> us @ concat (map f L) = t # T2) \<or>
      (f e @ us = T1 \<and> concat (map f L) = us @ t # T2)"
    unfolding append_eq_append_conv2 by blast
  then consider (here) us' where "f e = T1 @ t # us'"
    | (later) us where "f e @ us = T1" "concat (map f L) = us @ t # T2"
    by (cases us) auto
  then show ?case
  proof cases
    case here
    then have "e # L = [] @ e # L \<and> f e = T1 @ t # us' \<and> T1 = concat (map f []) @ T1" by simp
    then show ?thesis by blast
  next
    case later
    obtain L1 e' L2 a b where o: "L = L1 @ e' # L2" "f e' = a @ t # b" "us = concat (map f L1) @ a"
      using Cons.IH [OF later(2)] by blast
    have "e # L = (e # L1) @ e' # L2 \<and> f e' = a @ t # b \<and> T1 = concat (map f (e # L1)) @ a"
      using o later(1) by simp
    then show ?thesis by blast
  qed
qed

lemma find_first: "\<forall>x \<in> set L1. \<not> P x \<Longrightarrow> P e \<Longrightarrow> find P (L1 @ e # L2) = Some e"
  by (induction L1) simp_all

lemma entry_ok_Made:
  assumes "entry_ok T m k (Made i nm fo kd ch)"
  shows "i = k" "kd = (if fo then None else flat_kind nm)" "fo \<longleftrightarrow> ch \<noteq> None"
    "created T k nm fo" "has_parent m k" "kids_ok m k (Made i nm fo kd ch)"
proof -
  have c: "kids_ok m k (Made i nm fo kd ch) \<and>
      (i = k \<and> under_db k \<and> kd = (if fo then None else flat_kind nm) \<and> (fo \<longleftrightarrow> ch \<noteq> None) \<and>
       created T k nm fo \<and> has_parent m k)"
    using assms unfolding entry_ok_def mapped.case .
  show "i = k" using c by blast
  show "kd = (if fo then None else flat_kind nm)" using c by blast
  show "fo \<longleftrightarrow> ch \<noteq> None" using c by blast
  show "created T k nm fo" using c by blast
  show "has_parent m k" using c by blast
  show "kids_ok m k (Made i nm fo kd ch)" using c by blast
qed

lemma entry_ok_kids: "entry_ok T m k v \<Longrightarrow> kids_ok m k v"
  unfolding entry_ok_def by (rule conjunct1)

lemma entry_ok_Holder: "entry_ok T m k (Holder ks) \<Longrightarrow> k = ''database''"
  unfolding entry_ok_def by simp

lemma path_keys_db:
  assumes "startsWith p ''database/''"
  shows "path_keys p = ''database'' # joins ''database'' (split_on CHR ''/'' (drop 9 p))"
  using split_db [OF assms] by (simp add: path_keys_def Let_def)

text \<open>A key that is not the last one of some path has a child in the table, so it is a folder.\<close>

lemma inner_is_folder:
  assumes inv: "table_inv T m" and T: "T = concat (map entry_touches L)"
    and L: "\<forall>e \<in> set L. startsWith (entry_path e) ''database/''"
    and mo: "map_of m k = Some (Made i nm fo kd ch)"
    and e: "e \<in> set L" and k: "k \<in> set (butlast (path_keys (entry_path e)))"
  shows fo
proof -
  have sw: "startsWith (entry_path e) ''database/''" using L e by blast
  let ?rest = "split_on CHR ''/'' (drop 9 (entry_path e))"
  have pk: "path_keys (entry_path e) = ''database'' # joins ''database'' ?rest"
    using sw by (rule path_keys_db)
  have "\<exists>c \<in> set (joins ''database'' ?rest). child_of k c"
  proof (rule joins_child)
    show "''database'' \<noteq> []" by simp
    show "\<forall>p \<in> set ?rest. CHR ''/'' \<notin> set p" by (rule split_on_parts)
    show "k \<in> set (butlast (''database'' # joins ''database'' ?rest))" using k pk by simp
  qed
  then obtain c where c: "c \<in> set (path_keys (entry_path e))" "child_of k c" using pk by auto
  have "c \<in> set (map t_key (entry_touches e))" using c(1) entry_touches_db(2) [OF sw] by simp
  then obtain t where t: "t \<in> set (entry_touches e)" "t_key t = c" by auto
  have "t \<in> set T" using t(1) e T by auto
  then have "map_of m c \<noteq> None" using inv t(2) by (auto simp add: table_inv_def)
  then obtain v where v: "map_of m c = Some v" by blast
  have okc: "entry_ok T m c v" using inv v by (simp add: table_inv_def)
  have "c \<noteq> ''database''" using c(2) not_child_db by blast
  then obtain i' nm' fo' kd' ch' where v': "v = Made i' nm' fo' kd' ch'"
    using okc entry_ok_Holder by (cases v) auto
  have "has_parent m c" using okc v' entry_ok_Made(5) by blast
  then obtain p w where p: "map_of m p = Some w" "c \<in> set (kids w)" by (auto simp add: has_parent_def)
  have "entry_ok T m p w" using inv p(1) by (simp add: table_inv_def)
  then have "kids_ok m p w" by (rule entry_ok_kids)
  then have "child_of p c" using p(2) by (simp add: kids_ok_def)
  then have "p = k" using c(2) child_parent_unique by blast
  then have "w = Made i nm fo kd ch" using p(1) mo by simp
  then have "ch \<noteq> None" using p(2) by (cases ch) auto
  moreover have "entry_ok T m k (Made i nm fo kd ch)" using inv mo by (simp add: table_inv_def)
  ultimately show fo using entry_ok_Made(3) by blast
qed

text \<open>The step that created a key, in the listing.\<close>

lemma creation_step:
  assumes T: "concat (map entry_touches L) = T1 @ t # T2"
    and L: "\<forall>e \<in> set L. startsWith (entry_path e) ''database/''"
    and first: "\<forall>t' \<in> set T1. t_key t' \<noteq> t_key t"
  shows "t_entry t \<in> set L" "t_key t \<in> set (path_keys (entry_path (t_entry t)))"
    "\<not> t_last t \<Longrightarrow> t_key t \<in> set (butlast (path_keys (entry_path (t_entry t))))"
    "t_last t \<Longrightarrow> find (\<lambda>e. entry_path e = t_key t) L = Some (t_entry t)"
proof -
  obtain L1 e L2 a b where o: "L = L1 @ e # L2" "entry_touches e = a @ t # b"
    "T1 = concat (map entry_touches L1) @ a"
    using concat_split [OF T] by blast
  have eL: "e \<in> set L" using o(1) by simp
  have sw: "startsWith (entry_path e) ''database/''" using L eL by blast
  have tin: "t \<in> set (entry_touches e)" using o(2) by simp
  let ?ps = "split_on CHR ''/'' (entry_path e)"
  have et: "entry_touches e = touches e (length ?ps) 0 [] ?ps" by (simp add: entry_touches_def Let_def)
  have te: "t_entry t = e" using tin et entry_of_touches by metis
  show "t_entry t \<in> set L" using te eL by simp
  show "t_key t \<in> set (path_keys (entry_path (t_entry t)))"
    using te tin entry_touches_db(2) [OF sw] by simp
  {
    assume "\<not> t_last t"
    then have "t \<in> set (filter (\<lambda>t. \<not> t_last t) (entry_touches e))" using tin by simp
    then have "t_key t \<in> set (map t_key (filter (\<lambda>t. \<not> t_last t) (entry_touches e)))"
      unfolding set_map by (rule imageI)
    moreover have "map t_key (filter (\<lambda>t. \<not> t_last t) (touches e (length ?ps) 0 [] ?ps)) = butlast (joins [] ?ps)"
      by (rule nonlast_touches) simp
    ultimately show "t_key t \<in> set (butlast (path_keys (entry_path (t_entry t))))"
      using te et by (simp add: path_keys_def)
  }
  {
    assume tl: "t_last t"
    have "t_key t = last (joins [] ?ps)"
      using tin tl unfolding et by (intro last_touches [of 0 ?ps "length ?ps" t e "[]"]) simp_all
    then have kp: "t_key t = entry_path e" using entry_touches_db(3) [OF sw] by (simp add: path_keys_def)
    have "\<forall>e' \<in> set L1. entry_path e' \<noteq> t_key t"
    proof
      fix e' assume e': "e' \<in> set L1"
      then have sw': "startsWith (entry_path e') ''database/''" using L o(1) by simp
      have "last (path_keys (entry_path e')) \<in> set (path_keys (entry_path e'))"
        using entry_touches_db(4) [OF sw'] by (rule last_in_set)
      then have "entry_path e' \<in> set (map t_key (entry_touches e'))"
        using entry_touches_db(2) [OF sw'] entry_touches_db(3) [OF sw'] by simp
      then obtain t' where t': "t' \<in> set (entry_touches e')" "t_key t' = entry_path e'" by auto
      have "t' \<in> set T1" using t'(1) e' o(3) by auto
      then show "entry_path e' \<noteq> t_key t" using first t'(2) by metis
    qed
    then have "find (\<lambda>e. entry_path e = t_key t) (L1 @ e # L2) = Some e"
      using kp by (intro find_first) simp_all
    then show "find (\<lambda>e. entry_path e = t_key t) L = Some (t_entry t)" using o(1) te by simp
  }
qed

lemma classify:
  assumes inv: "table_inv T m" and T: "T = concat (map entry_touches L)"
    and L: "\<forall>e \<in> set L. startsWith (entry_path e) ''database/''"
    and mo: "map_of m k = Some (Made i nm fo kd ch)"
  shows "fo \<longleftrightarrow> (\<exists>e \<in> set L. k \<in> set (butlast (path_keys (entry_path e)))) \<or>
                 (case find (\<lambda>e. entry_path e = k) L of
                    Some e \<Rightarrow> entry_type e = ''tree'' | None \<Rightarrow> False)"
    and "\<exists>e \<in> set L. k \<in> set (path_keys (entry_path e))"
proof -
  have ok: "entry_ok T m k (Made i nm fo kd ch)" using inv mo by (simp add: table_inv_def)
  then have "created T k nm fo" by (rule entry_ok_Made(4))
  then obtain T1 t T2 where c: "T = T1 @ t # T2" "t_key t = k" "\<forall>t' \<in> set T1. t_key t' \<noteq> k"
    "fo = (entry_type (t_entry t) = ''tree'' \<or> \<not> t_last t)"
    by (auto simp add: created_def)
  have T': "concat (map entry_touches L) = T1 @ t # T2" using c(1) T by simp
  have first: "\<forall>t' \<in> set T1. t_key t' \<noteq> t_key t" using c(2) c(3) by simp
  note cs = creation_step [OF T' L first]
  show "\<exists>e \<in> set L. k \<in> set (path_keys (entry_path e))" using cs(1) cs(2) c(2) by blast
  let ?A = "\<exists>e \<in> set L. k \<in> set (butlast (path_keys (entry_path e)))"
  let ?B = "case find (\<lambda>e. entry_path e = k) L of Some e \<Rightarrow> entry_type e = ''tree'' | None \<Rightarrow> False"
  have a: "?A \<Longrightarrow> fo" using inner_is_folder [OF inv T L mo] by blast
  show "fo \<longleftrightarrow> ?A \<or> ?B"
  proof (cases "t_last t")
    case False
    then have "?A" using cs(1) cs(3) c(2) by blast
    moreover have fo using False c(4) by simp
    ultimately show ?thesis by simp
  next
    case True
    then have "find (\<lambda>e. entry_path e = k) L = Some (t_entry t)" using cs(4) c(2) by simp
    then have "?B \<longleftrightarrow> entry_type (t_entry t) = ''tree''" by simp
    then show ?thesis using True c(4) a by blast
  qed
qed

lemma nested_listing_tree: "buildTreeFromFlatList (rawNodes nested_listing) = Inr nested_tree"
  by (simp add: nested_listing_def nested_tree_def rawNodes_def startsWith_def buildTreeFromFlatList_def
    visit_entry_def visit_part_def in_table_def inherited_def push_child_def flat_kind_def
    toLowerCase_def to_lower_def root_tree_def Let_def)

text \<open>The kind of a file node, by the text after the last dot of its name.\<close>

lemma takeWhile_snoc_stop: "\<not> P c \<Longrightarrow> takeWhile P (ys @ [c]) = takeWhile P ys"
  by (induction ys) simp_all

lemma split_on_single: "c \<notin> set s \<Longrightarrow> split_on c s = [s]"
  by (induction s) auto

lemma split_on_many: "c \<in> set s \<Longrightarrow> \<exists>p q qs. split_on c s = p # q # qs"
proof (induction s)
  case Nil
  then show ?case by simp
next
  case (Cons x s)
  obtain p ps where ps: "split_on c s = p # ps" using split_on_nonempty [of c s] by (cases "split_on c s") auto
  show ?case
  proof (cases "x = c")
    case True
    then show ?thesis using ps by simp
  next
    case False
    then have "c \<in> set s" using Cons.prems by simp
    then obtain p' q qs where "split_on c s = p' # q # qs" using Cons.IH by blast
    then show ?thesis using False by simp
  qed
qed

lemma last_split_on: "last (split_on c s) = after_last c s"
proof (induction s)
  case Nil
  then show ?case by (simp add: after_last_def)
next
  case (Cons x s)
  show ?case
  proof (cases "x = c")
    case True
    have "last (split_on c (x # s)) = last (split_on c s)"
      using True split_on_nonempty [of c s] by simp
    moreover have "after_last c (x # s) = after_last c s"
      using True by (simp add: after_last_def takeWhile_snoc_stop)
    ultimately show ?thesis using Cons.IH by simp
  next
    case False
    show ?thesis
    proof (cases "c \<in> set s")
      case True
      then obtain p q qs where pq: "split_on c s = p # q # qs" using split_on_many by blast
      then have "last (split_on c (x # s)) = last (split_on c s)" using False by simp
      moreover have "\<not> (\<forall>y \<in> set (rev s). y \<noteq> c)" using True by simp
      then have "takeWhile (\<lambda>y. y \<noteq> c) (rev s @ [x]) = takeWhile (\<lambda>y. y \<noteq> c) (rev s)"
        by (simp add: takeWhile_append1)
      then have "after_last c (x # s) = after_last c s" by (simp add: after_last_def)
      ultimately show ?thesis using Cons.IH by simp
    next
      case False2: False
      have n: "c \<notin> set (x # s)" using False False2 by simp
      have a: "split_on c (x # s) = [x # s]" using n by (rule split_on_single)
      have "\<forall>y \<in> set (rev (x # s)). y \<noteq> c" using n by auto
      then have b: "takeWhile (\<lambda>y. y \<noteq> c) (rev (x # s)) = rev (x # s)"
        by (simp only: takeWhile_eq_all_conv)
      show ?thesis unfolding a after_last_def b by simp
    qed
  qed
qed

lemma kind_of_ext_dot:
  "kind_of_ext (CHR ''.'' # e) =
     (if e = ''json'' then Some ''json'' else if e = ''pdf'' then Some ''pdf''
      else if e = ''pptx'' \<or> e = ''ppt'' then Some ''pptx'' else None)"
  by (simp add: kind_of_ext_def)

lemma flat_kind_ext: "flat_kind nm = kind_of_ext (CHR ''.'' # toLowerCase (after_last CHR ''.'' nm))"
  by (simp add: flat_kind_def last_split_on kind_of_ext_dot Let_def)

lemma extname_after_last:
  "extname nm \<noteq> [] \<Longrightarrow> toLowerCase (extname nm) = CHR ''.'' # toLowerCase (after_last CHR ''.'' nm)"
  by (auto simp add: extname_def after_last_def toLowerCase_def to_lower_def Let_def split: if_splits)

text \<open>The name of a node is the last part of its id.\<close>

lemma chained_key:
  "chained q ts \<Longrightarrow> t \<in> set ts \<Longrightarrow>
   t_key t = ''database'' \<or> (\<exists>prev. t_key t = prev @ ''/'' @ t_part t \<and> CHR ''/'' \<notin> set (t_part t))"
  by (induction ts arbitrary: q) auto

lemma after_last_part: "c \<notin> set part \<Longrightarrow> after_last c (prev @ c # part) = part"
proof -
  assume n: "c \<notin> set part"
  have "takeWhile (\<lambda>x. x \<noteq> c) (rev part @ c # rev prev) = takeWhile (\<lambda>x. x \<noteq> c) (rev part)"
    by (rule takeWhile_tail) simp
  moreover have "\<forall>y \<in> set (rev part). y \<noteq> c" using n by auto
  then have "takeWhile (\<lambda>x. x \<noteq> c) (rev part) = rev part" by (simp only: takeWhile_eq_all_conv)
  ultimately show ?thesis by (simp add: after_last_def)
qed

lemma flat_tree_nodes:
  assumes run: "buildTreeFromFlatList (rawNodes tree) = Inr t"
  shows "distinct (map node_id (tree_nodes t))"
    and "n \<in> set (tree_nodes t) \<Longrightarrow>
         (\<exists>e \<in> set (rawNodes tree). node_id n \<in> set (path_keys (entry_path e))) \<and>
         node_name n = after_last CHR ''/'' (node_id n) \<and>
         (isFolder n \<longleftrightarrow> inner_key (rawNodes tree) (node_id n) \<or> tree_entry (rawNodes tree) (node_id n)) \<and>
         kind n = (if isFolder n then None
                   else kind_of_ext (CHR ''.'' # toLowerCase (after_last CHR ''.'' (node_name n)))) \<and>
         (\<not> isFolder n \<and> extname (node_name n) \<noteq> [] \<longrightarrow>
            kind n = kind_of_ext (toLowerCase (extname (node_name n)))) \<and>
         node_data n = None"
proof -
  let ?L = "rawNodes tree"
  let ?T = "concat (map entry_touches ?L)"
  obtain m where m: "forEach visit_entry ?L [(''database'', Holder [])] = Inr m" and rt: "root_tree m = Some t"
    using run by (auto simp add: buildTreeFromFlatList_def split: sum.splits option.splits)
  have inv: "table_inv ?T m" using m by (rule final_table_inv)
  show "distinct (map node_id (tree_nodes t))" using inv rt by (rule tree_ids_distinct)
  assume n: "n \<in> set (tree_nodes t)"
  obtain ch where mo: "map_of m (node_id n) = Some (Made (node_id n) (node_name n) (isFolder n) (kind n) ch)"
    and d: "node_data n = None"
    using tree_node_in_table [OF inv rt n] by blast
  have ok: "entry_ok ?T m (node_id n) (Made (node_id n) (node_name n) (isFolder n) (kind n) ch)"
    using inv mo by (simp add: table_inv_def)
  note cl = classify [OF inv refl rawNodes_db mo]
  have f: "isFolder n \<longleftrightarrow> inner_key ?L (node_id n) \<or> tree_entry ?L (node_id n)"
    using cl(1) by (simp add: inner_key_def tree_entry_def)
  have k: "kind n = (if isFolder n then None
                     else kind_of_ext (CHR ''.'' # toLowerCase (after_last CHR ''.'' (node_name n))))"
    using entry_ok_Made(2) [OF ok] by (simp add: flat_kind_ext)
  have k': "kind n = kind_of_ext (toLowerCase (extname (node_name n)))"
    if "\<not> isFolder n" "extname (node_name n) \<noteq> []"
    using k that extname_after_last by simp
  have "created ?T (node_id n) (node_name n) (isFolder n)" using ok by (rule entry_ok_Made(4))
  then obtain T1 tc T2 where tc0: "?T = T1 @ tc # T2" and tc1: "t_key tc = node_id n" "node_name n = t_part tc"
    unfolding created_def by blast
  have tc: "tc \<in> set ?T" "t_key tc = node_id n" "t_part tc = node_name n"
    using tc0 tc1 by simp_all
  have "chained ''database'' ?T" using rawNodes_db by (rule chained_entries)
  then have "t_key tc = ''database'' \<or>
      (\<exists>prev. t_key tc = prev @ ''/'' @ t_part tc \<and> CHR ''/'' \<notin> set (t_part tc))"
    using tc(1) by (rule chained_key)
  moreover have "under_db (node_id n)" using ok unfolding entry_ok_def by simp
  then have "node_id n \<noteq> ''database''" by (rule under_db_not_db)
  ultimately obtain prev where "node_id n = prev @ ''/'' @ node_name n" "CHR ''/'' \<notin> set (node_name n)"
    using tc(2) tc(3) by auto
  then have nm: "node_name n = after_last CHR ''/'' (node_id n)"
    using after_last_part [of "CHR ''/''" "node_name n" prev] by simp
  show "(\<exists>e \<in> set ?L. node_id n \<in> set (path_keys (entry_path e))) \<and>
         node_name n = after_last CHR ''/'' (node_id n) \<and>
         (isFolder n \<longleftrightarrow> inner_key ?L (node_id n) \<or> tree_entry ?L (node_id n)) \<and>
         kind n = (if isFolder n then None
                   else kind_of_ext (CHR ''.'' # toLowerCase (after_last CHR ''.'' (node_name n)))) \<and>
         (\<not> isFolder n \<and> extname (node_name n) \<noteq> [] \<longrightarrow>
            kind n = kind_of_ext (toLowerCase (extname (node_name n)))) \<and>
         node_data n = None"
    using cl(2) nm f k k' d by blast
qed

lemma dotless_listing_tree:
  "buildTreeFromFlatList (rawNodes dotless_listing) =
     Inr [Node ''database/pdf'' ''pdf'' False (Some ''pdf'') None None]"
  by (simp add: dotless_listing_def rawNodes_def startsWith_def buildTreeFromFlatList_def visit_entry_def
    visit_part_def in_table_def inherited_def push_child_def flat_kind_def toLowerCase_def to_lower_def
    root_tree_def Let_def)

lemma dotless_local: "extname ''pdf'' = [] \<and> scanDir lc ''database'' [File ''pdf'' None] = []"
  by (simp add: extname_def scanDir.simps scan_item.simps startsWith_def toLowerCase_def Let_def)

text \<open>
  Claim C6 holds but for the kind of a file whose name has no extension. When the flat-list
  builder returns a tree for a filtered listing, no two nodes of the tree have the same id,
  and every node has the id of a prefix of one of the listed paths and the last part of it
  for a name; it is a folder exactly when its id ends at a part that is not the last one of
  some listed path or the first entry with its id as path is a tree; a folder has no kind,
  and no node has data. A file node has the kind that the text after the last dot of its
  name gives, without regard to case: that is the kind of its extension when it has one, as
  in the local builder. For a name without an extension the builder takes the whole name:
  the file \<^verbatim>\<open>database/pdf\<close> gets the kind \<^verbatim>\<open>pdf\<close>, where the local builder, for which the
  extension of \<^verbatim>\<open>pdf\<close> is empty, makes no node. For the listing of the example the tree is
  the one file node \<^verbatim>\<open>database/x.json\<close> of kind \<^verbatim>\<open>json\<close>.
\<close>

theorem flat_builder_nodes:
  "(buildTreeFromFlatList (rawNodes tree) = Inr t \<longrightarrow>
      distinct (map node_id (tree_nodes t)) \<and>
      (\<forall>n \<in> set (tree_nodes t).
         (\<exists>e \<in> set (rawNodes tree). node_id n \<in> set (path_keys (entry_path e))) \<and>
         node_name n = after_last CHR ''/'' (node_id n) \<and>
         (isFolder n \<longleftrightarrow>
            inner_key (rawNodes tree) (node_id n) \<or> tree_entry (rawNodes tree) (node_id n)) \<and>
         kind n = (if isFolder n then None
                   else kind_of_ext (CHR ''.'' # toLowerCase (after_last CHR ''.'' (node_name n)))) \<and>
         (\<not> isFolder n \<and> extname (node_name n) \<noteq> [] \<longrightarrow>
            kind n = kind_of_ext (toLowerCase (extname (node_name n)))) \<and>
         node_data n = None)) \<and>
   buildTreeFromFlatList (rawNodes listing_example) =
     Inr [Node ''database/x.json'' ''x.json'' False (Some ''json'') None None] \<and>
   buildTreeFromFlatList (rawNodes dotless_listing) =
     Inr [Node ''database/pdf'' ''pdf'' False (Some ''pdf'') None None] \<and>
   extname ''pdf'' = [] \<and> scanDir lc ''database'' [File ''pdf'' None] = []"
  using flat_tree_nodes listing_example_tree dotless_listing_tree dotless_local by blast

theorem flat_builder_nodes_witness:
  "buildTreeFromFlatList (rawNodes nested_listing) = Inr nested_tree \<and>
   distinct (map node_id (tree_nodes nested_tree)) \<and>
   kind (Node ''database/S.PPT'' ''S.PPT'' False (Some ''pptx'') None None) =
     kind_of_ext (toLowerCase (extname ''S.PPT''))"
proof -
  have run: "buildTreeFromFlatList (rawNodes nested_listing) = Inr nested_tree"
    by (rule nested_listing_tree)
  note inst = flat_builder_nodes [of nested_listing nested_tree, THEN conjunct1, rule_format, OF run]
  have d: "distinct (map node_id (tree_nodes nested_tree))" using inst by blast
  let ?n = "Node ''database/S.PPT'' ''S.PPT'' False (Some ''pptx'') None None"
  have "?n \<in> set (tree_nodes nested_tree)" by (simp add: nested_tree_def tree_nodes_def)
  moreover have "\<not> isFolder ?n \<and> extname (node_name ?n) \<noteq> []" by (simp add: extname_def Let_def)
  ultimately have "kind ?n = kind_of_ext (toLowerCase (extname (node_name ?n)))" using inst by blast
  then show ?thesis using run d by simp
qed

subsection \<open>When the flat-list builder returns\<close>

lemma ordered_append: "ordered m \<Longrightarrow> kids v = [] \<Longrightarrow> ordered (m @ [(k, v)])"
  by (induction m) auto

lemma ordered_step:
  "ordered m \<Longrightarrow> map_of m p = Some pv \<Longrightarrow> kids pv' = kids pv @ [c] \<Longrightarrow> kids nd = [] \<Longrightarrow>
   ordered (AList.update p pv' m @ [(c, nd)])"
proof (induction m)
  case Nil
  then show ?case by simp
next
  case (Cons x m)
  obtain k0 v0 where x: "x = (k0, v0)" by (cases x)
  show ?case
  proof (cases "k0 = p")
    case True
    then have "pv = v0" using Cons.prems(2) x by simp
    moreover have "ordered (m @ [(c, nd)])" using Cons.prems(1,4) x by (simp add: ordered_append)
    ultimately show ?thesis using True x Cons.prems(1,3) by auto
  next
    case False
    then have "map_of m p = Some pv" using Cons.prems(2) x by simp
    then have "ordered (AList.update p pv' m @ [(c, nd)])"
      using Cons.prems(1,3,4) x by (intro Cons.IH) simp_all
    moreover have sub: "fst ` set m \<subseteq> fst ` set (AList.update p pv' m @ [(c, nd)])"
      by (auto simp add: dom_update)
    moreover have "set (kids v0) \<subseteq> fst ` set m" using Cons.prems(1) x by simp
    then have "set (kids v0) \<subseteq> fst ` set (AList.update p pv' m @ [(c, nd)])" using sub by blast
    ultimately show ?thesis using False x by simp
  qed
qed

lemma table_inv_step:
  assumes inv: "table_inv T m" and prev: "map_of m prev \<noteq> None" and ch: "chained prev (t # ts)"
    and r: "touch_table t m = Inr m1"
  shows "table_inv (T @ [t]) m1"
proof (cases "map_of m (t_key t) = None")
  case False
  then have "m1 = m" using r by (simp add: touch_known)
  then show ?thesis using inv False by (simp add: table_inv_known)
next
  case True
  have "t_key t \<noteq> ''database''" using inv True by (auto simp add: table_inv_def)
  then have l: "t_parent t = prev" "t_key t = prev @ ''/'' @ t_part t" "CHR ''/'' \<notin> set (t_part t)"
    using ch by auto
  obtain pv where "map_of m prev = Some pv" using prev by blast
  with inv True l show ?thesis using r by (rule table_inv_new)
qed

lemma ordered_touch:
  assumes inv: "table_inv T m" and o: "ordered m" and prev: "map_of m prev \<noteq> None"
    and ch: "chained prev (t # ts)" and r: "touch_table t m = Inr m1"
  shows "ordered m1"
proof (cases "map_of m (t_key t) = None")
  case False
  then have "m1 = m" using r by (simp add: touch_known)
  then show ?thesis using o by simp
next
  case True
  have nd: "t_key t \<noteq> ''database''" using inv True by (auto simp add: table_inv_def)
  then have l: "t_parent t = prev" "t_key t = prev @ ''/'' @ t_part t" using ch by auto
  obtain pv where pv: "map_of m prev = Some pv" using prev by blast
  have "entry_ok T m prev pv" using inv pv by (simp add: table_inv_def)
  then have "under_db prev \<or> prev = ''database''"
    by (cases pv) (auto simp add: entry_ok_def)
  then have "under_db (t_key t)" using l(2) by (rule under_db_child)
  then have ni: "\<not> inherited (t_key t)" by (rule under_db_not_inherited)
  have p: "map_of m (t_parent t) = Some pv" using pv l(1) by simp
  obtain pv' nd where m1: "m1 = AList.update (t_parent t) pv' m @ [(t_key t, nd)]"
    "kids pv' = kids pv @ [t_key t]" "kids nd = []"
    using touch_new [OF True ni p r] by blast
  show ?thesis unfolding m1(1) using o p m1(2) m1(3) by (rule ordered_step)
qed

lemma ordered_run:
  "table_inv T m \<Longrightarrow> ordered m \<Longrightarrow> map_of m prev \<noteq> None \<Longrightarrow> chained prev ts \<Longrightarrow>
   forEach touch_table ts m = Inr m' \<Longrightarrow> ordered m'"
proof (induction ts arbitrary: T m prev)
  case Nil
  then show ?case by simp
next
  case (Cons t ts)
  obtain m1 where m1: "touch_table t m = Inr m1" "forEach touch_table ts m1 = Inr m'"
    using Cons.prems(5) by (auto split: sum.splits)
  have c: "chained (t_key t) ts" using Cons.prems(4) by simp
  have inv1: "table_inv (T @ [t]) m1"
    using Cons.prems(1) Cons.prems(3) Cons.prems(4) m1(1) by (rule table_inv_step)
  have o1: "ordered m1"
    using Cons.prems(1) Cons.prems(2) Cons.prems(3) Cons.prems(4) m1(1) by (rule ordered_touch)
  have "\<forall>t' \<in> set (T @ [t]). map_of m1 (t_key t') \<noteq> None"
    using inv1 unfolding table_inv_def by blast
  then have "map_of m1 (t_key t) \<noteq> None" by simp
  with inv1 o1 show ?case using c m1(2) by (rule Cons.IH)
qed

lemma final_ordered:
  assumes "forEach visit_entry (rawNodes tree) [(''database'', Holder [])] = Inr m"
  shows "ordered m"
proof -
  let ?T = "concat (map entry_touches (rawNodes tree))"
  have r: "forEach touch_table ?T [(''database'', Holder [])] = Inr m"
    using assms by (simp add: forEach_entries)
  have c: "chained ''database'' ?T" using rawNodes_db by (rule chained_entries)
  show ?thesis
    using table_inv_start _ _ c r by (rule ordered_run) simp_all
qed

lemma those_Some: "\<forall>x \<in> set xs. f x \<noteq> None \<Longrightarrow> \<exists>ys. those (map f xs) = Some ys"
  by (induction xs) auto

text \<open>In an ordered table every created node has its tree.\<close>

lemma build_table_keys:
  assumes "ordered m" "distinct (map fst m)"
    and "\<forall>k v c ks. (k, v) \<in> set m \<longrightarrow> c \<in> set (kids v) \<longrightarrow> (c, Holder ks) \<notin> set m"
  shows "\<forall>k i nm fo kd ch. (k, Made i nm fo kd ch) \<in> set m \<longrightarrow> map_of (build_table m) k \<noteq> None"
  using assms
proof (induction m)
  case Nil
  then show ?case by simp
next
  case (Cons x m)
  obtain k0 v0 where x: "x = (k0, v0)" by (cases x)
  let ?tbl = "build_table m"
  have ih: "\<forall>k i nm fo kd ch. (k, Made i nm fo kd ch) \<in> set m \<longrightarrow> map_of ?tbl k \<noteq> None"
  proof (rule Cons.IH)
    show "ordered m" using Cons.prems(1) x by simp
    show "distinct (map fst m)" using Cons.prems(2) by simp
    show "\<forall>k v c ks. (k, v) \<in> set m \<longrightarrow> c \<in> set (kids v) \<longrightarrow> (c, Holder ks) \<notin> set m"
      using Cons.prems(3) by (meson list.set_intros(2))
  qed
  have sub: "set ?tbl \<subseteq> set (build_table (x # m))" by (rule build_table_mono)
  have kept: "map_of (build_table (x # m)) k \<noteq> None" if "map_of ?tbl k \<noteq> None" for k
  proof -
    have "k \<in> fst ` set ?tbl" using that by (simp add: map_of_eq_None_iff)
    then have "k \<in> fst ` set (build_table (x # m))" using sub by blast
    then show ?thesis by (simp add: map_of_eq_None_iff)
  qed
  have head: "map_of (build_table (x # m)) k0 \<noteq> None" if v0: "v0 = Made i nm fo kd ch" for i nm fo kd ch
  proof (cases ch)
    case None
    then show ?thesis using x v0 by simp
  next
    case (Some ks)
    have "\<forall>c \<in> set ks. map_of ?tbl c \<noteq> None"
    proof
      fix c assume c: "c \<in> set ks"
      then have ck: "c \<in> set (kids v0)" using v0 Some by simp
      then have "c \<in> fst ` set m" using Cons.prems(1) x by auto
      then obtain w where w: "(c, w) \<in> set m" by auto
      have "(k0, v0) \<in> set (x # m)" using x by simp
      then have "\<forall>ks. (c, Holder ks) \<notin> set (x # m)" using Cons.prems(3) ck by blast
      then obtain i' nm' fo' kd' ch' where "w = Made i' nm' fo' kd' ch'" using w by (cases w) auto
      then show "map_of ?tbl c \<noteq> None" using ih w by blast
    qed
    then obtain cs where "those (map (map_of ?tbl) ks) = Some cs" using those_Some by blast
    then show ?thesis using x v0 Some by simp
  qed
  show ?case
  proof (intro allI impI)
    fix k i nm fo kd ch assume "(k, Made i nm fo kd ch) \<in> set (x # m)"
    then consider "k = k0" "v0 = Made i nm fo kd ch" | "(k, Made i nm fo kd ch) \<in> set m"
      using x by auto
    then show "map_of (build_table (x # m)) k \<noteq> None"
    proof cases
      case 1
      then show ?thesis using head by simp
    next
      case 2
      then have "map_of ?tbl k \<noteq> None" using ih by blast
      then show ?thesis by (rule kept)
    qed
  qed
qed

text \<open>The table of a run that does not throw holds a tree: the builder returns it.\<close>

lemma root_tree_total:
  assumes inv: "table_inv T m" and o: "ordered m"
  shows "\<exists>t. root_tree m = Some t"
proof -
  have d: "distinct (map fst m)" using inv by (simp add: table_inv_def)
  have mk: "map_of m k = Some v" if "(k, v) \<in> set m" for k v using d that by (rule map_of_is_SomeI)
  have nh: "\<forall>k v c ks. (k, v) \<in> set m \<longrightarrow> c \<in> set (kids v) \<longrightarrow> (c, Holder ks) \<notin> set m"
  proof (intro allI impI notI)
    fix k v c ks assume a: "(k, v) \<in> set m" "c \<in> set (kids v)" "(c, Holder ks) \<in> set m"
    have "entry_ok T m k v" using inv mk [OF a(1)] by (simp add: table_inv_def)
    then have "kids_ok m k v" by (rule entry_ok_kids)
    then have "child_of k c" using a(2) by (simp add: kids_ok_def)
    moreover have "entry_ok T m c (Holder ks)" using inv mk [OF a(3)] by (simp add: table_inv_def)
    then have "c = ''database''" by (rule entry_ok_Holder)
    ultimately show False using not_child_db by blast
  qed
  note keys = build_table_keys [OF o d nh]
  obtain ks where ks: "map_of m ''database'' = Some (Holder ks)" using inv by (auto simp add: table_inv_def)
  then have "entry_ok T m ''database'' (Holder ks)" using inv by (simp add: table_inv_def)
  then have kok: "kids_ok m ''database'' (Holder ks)" by (rule entry_ok_kids)
  have "\<forall>c \<in> set ks. map_of (build_table m) c \<noteq> None"
  proof
    fix c assume c: "c \<in> set ks"
    then have "child_of ''database'' c" "map_of m c \<noteq> None" using kok by (simp_all add: kids_ok_def)
    then obtain w where w: "map_of m c = Some w" by blast
    have "c \<noteq> ''database''" using \<open>child_of ''database'' c\<close> not_child_db by blast
    moreover have "entry_ok T m c w" using inv w by (simp add: table_inv_def)
    ultimately obtain i nm fo kd ch where "w = Made i nm fo kd ch"
      using entry_ok_Holder by (cases w) auto
    then have "(c, Made i nm fo kd ch) \<in> set m" using w by (simp add: map_of_SomeD)
    then show "map_of (build_table m) c \<noteq> None" using keys by blast
  qed
  then obtain t where "those (map (map_of (build_table m)) ks) = Some t" using those_Some by blast
  then show ?thesis using ks by (simp add: root_tree_def)
qed

lemma builder_returns_table:
  "(\<exists>t. buildTreeFromFlatList (rawNodes tree) = Inr t) \<longleftrightarrow>
   (\<exists>m. forEach visit_entry (rawNodes tree) [(''database'', Holder [])] = Inr m)"
proof
  assume "\<exists>t. buildTreeFromFlatList (rawNodes tree) = Inr t"
  then show "\<exists>m. forEach visit_entry (rawNodes tree) [(''database'', Holder [])] = Inr m"
    by (auto simp add: buildTreeFromFlatList_def split: sum.splits)
next
  assume "\<exists>m. forEach visit_entry (rawNodes tree) [(''database'', Holder [])] = Inr m"
  then obtain m where m: "forEach visit_entry (rawNodes tree) [(''database'', Holder [])] = Inr m" by blast
  have "\<exists>t. root_tree m = Some t" using final_table_inv [OF m] final_ordered [OF m] by (rule root_tree_total)
  then show "\<exists>t. buildTreeFromFlatList (rawNodes tree) = Inr t"
    using m by (auto simp add: buildTreeFromFlatList_def)
qed

lemma joins_longer: "cur \<noteq> [] \<Longrightarrow> c \<in> set (joins cur ps) \<Longrightarrow> length cur < length c"
proof (induction ps arbitrary: cur)
  case Nil
  then show ?case by simp
next
  case (Cons part ps)
  let ?c = "cur @ ''/'' @ part"
  have j: "joins cur (part # ps) = ?c # joins ?c ps" using Cons.prems(1) by (simp add: Let_def)
  then have "c = ?c \<or> c \<in> set (joins ?c ps)" using Cons.prems(2) by simp
  then show ?case
  proof
    assume "c = ?c"
    then show ?thesis by simp
  next
    assume "c \<in> set (joins ?c ps)"
    then have "length ?c < length c" by (intro Cons.IH) simp_all
    then show ?thesis by simp
  qed
qed

lemma joins_distinct: "cur \<noteq> [] \<Longrightarrow> distinct (cur # joins cur ps)"
proof (induction ps arbitrary: cur)
  case Nil
  then show ?case by simp
next
  case (Cons part ps)
  let ?c = "cur @ ''/'' @ part"
  have j: "joins cur (part # ps) = ?c # joins ?c ps" using Cons.prems(1) by (simp add: Let_def)
  have d: "distinct (?c # joins ?c ps)" by (rule Cons.IH) simp
  have "cur \<notin> set (?c # joins ?c ps)"
  proof
    assume "cur \<in> set (?c # joins ?c ps)"
    then have "cur \<in> set (joins cur (part # ps))" using j by simp
    then have "length cur < length cur" using Cons.prems(1) by (rule joins_longer [rotated])
    then show False by simp
  qed
  then show ?case using d j by simp
qed

lemma last_not_butlast: "distinct xs \<Longrightarrow> xs \<noteq> [] \<Longrightarrow> last xs \<notin> set (butlast xs)"
proof -
  assume d: "distinct xs" and n: "xs \<noteq> []"
  have "distinct (butlast xs @ [last xs])" using d n by simp
  then show ?thesis by simp
qed

lemma path_keys_distinct:
  assumes "startsWith p ''database/''"
  shows "distinct (path_keys p)"
  unfolding path_keys_db [OF assms] by (rule joins_distinct) simp

lemma parent_touches:
  "t \<in> set (touches n len i cur ps) \<Longrightarrow> t_parent t \<in> set (butlast (cur # joins cur ps))"
proof (induction ps arbitrary: i cur)
  case Nil
  then show ?case by simp
next
  case (Cons part ps)
  let ?c = "if cur \<noteq> [] then cur @ ''/'' @ part else part"
  have j: "joins cur (part # ps) = ?c # joins ?c ps" by (simp add: Let_def)
  have b: "butlast (cur # joins cur (part # ps)) = cur # butlast (?c # joins ?c ps)"
    unfolding j by simp
  have "t_parent t = cur \<or> t \<in> set (touches n len (Suc i) ?c ps)"
    using Cons.prems by (auto simp add: Let_def)
  then show ?case
  proof
    assume "t_parent t = cur"
    then show ?thesis unfolding b by simp
  next
    assume "t \<in> set (touches n len (Suc i) ?c ps)"
    then have "t_parent t \<in> set (butlast (?c # joins ?c ps))" by (rule Cons.IH)
    then show ?thesis unfolding b by simp
  qed
qed

text \<open>The entry of the step that created a key is the first one whose path goes through
  the key.\<close>

lemma creation_entry:
  assumes T: "concat (map entry_touches L) = T1 @ t # T2"
    and L: "\<forall>e \<in> set L. startsWith (entry_path e) ''database/''"
    and first: "\<forall>t' \<in> set T1. t_key t' \<noteq> t_key t"
  shows "find (\<lambda>e. t_key t \<in> set (path_keys (entry_path e))) L = Some (t_entry t)"
    and "t_last t \<Longrightarrow> entry_path (t_entry t) = t_key t"
proof -
  obtain L1 e L2 a b where o: "L = L1 @ e # L2" "entry_touches e = a @ t # b"
    "T1 = concat (map entry_touches L1) @ a"
    using concat_split [OF T] by blast
  have eL: "e \<in> set L" using o(1) by simp
  have sw: "startsWith (entry_path e) ''database/''" using L eL by blast
  have tin: "t \<in> set (entry_touches e)" using o(2) by simp
  let ?ps = "split_on CHR ''/'' (entry_path e)"
  have et: "entry_touches e = touches e (length ?ps) 0 [] ?ps" by (simp add: entry_touches_def Let_def)
  have te: "t_entry t = e" using tin et entry_of_touches by metis
  have here: "t_key t \<in> set (path_keys (entry_path e))"
    using tin entry_touches_db(2) [OF sw] by simp
  have "\<forall>e' \<in> set L1. t_key t \<notin> set (path_keys (entry_path e'))"
  proof (intro ballI notI)
    fix e' assume e': "e' \<in> set L1" and k: "t_key t \<in> set (path_keys (entry_path e'))"
    have sw': "startsWith (entry_path e') ''database/''" using L o(1) e' by simp
    have "t_key t \<in> set (map t_key (entry_touches e'))" using k entry_touches_db(2) [OF sw'] by simp
    then obtain t' where t': "t' \<in> set (entry_touches e')" "t_key t' = t_key t" by auto
    have "t' \<in> set T1" using t'(1) e' o(3) by auto
    then show False using first t'(2) by blast
  qed
  then have "find (\<lambda>e. t_key t \<in> set (path_keys (entry_path e))) (L1 @ e # L2) = Some e"
    using here by (intro find_first) simp_all
  then show "find (\<lambda>e. t_key t \<in> set (path_keys (entry_path e))) L = Some (t_entry t)"
    using o(1) te by simp
  {
    assume tl: "t_last t"
    have "t_key t = last (joins [] ?ps)"
      using tin tl unfolding et by (intro last_touches [of 0 ?ps "length ?ps" t e "[]"]) simp_all
    then show "entry_path (t_entry t) = t_key t"
      using entry_touches_db(3) [OF sw] te by (simp add: path_keys_def)
  }
qed

text \<open>A run that does not throw has no clash.\<close>

lemma run_no_clash:
  assumes inv: "table_inv T m" and T: "T = concat (map entry_touches L)"
    and L: "\<forall>e \<in> set L. startsWith (entry_path e) ''database/''"
  shows "\<not> clash L"
proof
  assume "clash L"
  then obtain e k where e: "e \<in> set L" and k: "k \<in> set (butlast (path_keys (entry_path e)))"
    and ff: "file_first L k"
    by (auto simp add: clash_def)
  obtain e1 where e1: "find (\<lambda>e. k \<in> set (path_keys (entry_path e))) L = Some e1"
    "entry_path e1 = k" "entry_type e1 \<noteq> ''tree''"
    using ff by (auto simp add: file_first_def split: option.splits)
  have "e1 \<in> set L" using e1(1) by (auto simp add: find_Some_iff)
  then have sw1: "startsWith (entry_path e1) ''database/''" using L by blast
  then obtain r where "k = ''database/'' @ r" using e1(2) startsWith_split by blast
  then have "under_db k" by (auto simp add: under_db_def)
  then have kd: "k \<noteq> ''database''" by (rule under_db_not_db)
  have sw: "startsWith (entry_path e) ''database/''" using L e by blast
  have "k \<in> set (path_keys (entry_path e))" using k by (rule in_set_butlastD)
  then have "k \<in> set (map t_key (entry_touches e))" using entry_touches_db(2) [OF sw] by simp
  then obtain t where t: "t \<in> set (entry_touches e)" "t_key t = k" by auto
  have "t \<in> set T" using t(1) e T by auto
  then have "map_of m k \<noteq> None" using inv t(2) by (auto simp add: table_inv_def)
  then obtain v where v: "map_of m k = Some v" by blast
  have ok: "entry_ok T m k v" using inv v by (simp add: table_inv_def)
  then obtain i nm fo kd' ch where v': "v = Made i nm fo kd' ch"
    using kd entry_ok_Holder by (cases v) auto
  have mo: "map_of m k = Some (Made i nm fo kd' ch)" using v v' by simp
  have fo: fo using inv T L mo e k by (rule inner_is_folder)
  have "created T k nm fo" using ok v' entry_ok_Made(4) by blast
  then obtain T1 t0 T2 where c: "T = T1 @ t0 # T2" "t_key t0 = k" "\<forall>t' \<in> set T1. t_key t' \<noteq> k"
    "fo = (entry_type (t_entry t0) = ''tree'' \<or> \<not> t_last t0)"
    by (auto simp add: created_def)
  have T': "concat (map entry_touches L) = T1 @ t0 # T2" using c(1) T by simp
  have first: "\<forall>t' \<in> set T1. t_key t' \<noteq> t_key t0" using c(2) c(3) by simp
  have "find (\<lambda>e. k \<in> set (path_keys (entry_path e))) L = Some (t_entry t0)"
    using creation_entry(1) [OF T' L first] c(2) by simp
  then have e10: "t_entry t0 = e1" using e1(1) by simp
  then have "\<not> t_last t0" using fo c(4) e1(3) by simp
  then have "t_key t0 \<in> set (butlast (path_keys (entry_path (t_entry t0))))"
    by (rule creation_step(3) [OF T' L first])
  then have "k \<in> set (butlast (path_keys k))" using c(2) e10 e1(2) by simp
  moreover have "last (path_keys k) = k" using entry_touches_db(3) [OF sw1] e1(2) by simp
  moreover have "distinct (path_keys k)" using path_keys_distinct [OF sw1] e1(2) by simp
  moreover have "path_keys k \<noteq> []" using entry_touches_db(4) [OF sw1] e1(2) by simp
  ultimately show False using last_not_butlast by metis
qed

text \<open>A step on a new key whose parent has \<^verbatim>\<open>children\<close> does not throw.\<close>

lemma touch_new_returns:
  assumes n: "map_of m (t_key t) = None" and ni: "\<not> inherited (t_key t)"
    and p: "map_of m (t_parent t) = Some pv"
    and pv: "case pv of Holder ks \<Rightarrow> True | Made i nm fo kd ch \<Rightarrow> ch \<noteq> None"
  shows "\<exists>m1. touch_table t m = Inr m1"
proof -
  let ?fo = "entry_type (t_entry t) = ''tree'' \<or> \<not> t_last t"
  let ?nd = "if ?fo then Made (t_key t) (t_part t) True None (Some [])
             else Made (t_key t) (t_part t) False (flat_kind (t_part t)) None"
  let ?m1 = "m @ [(t_key t, ?nd)]"
  have p1: "map_of ?m1 (t_parent t) = Some pv" using p by (simp add: map_add_def)
  have "\<exists>m1. push_child ?m1 (t_parent t) (t_key t) = Inr m1"
  proof (cases pv)
    case (Holder ks)
    then show ?thesis using p1 by (simp add: push_child_def)
  next
    case (Made i nm fo kd ch)
    then obtain ks where "ch = Some ks" using pv by auto
    then show ?thesis using p1 Made by (simp add: push_child_def)
  qed
  moreover have "touch_table t m = push_child ?m1 (t_parent t) (t_key t)"
    using n ni p1 by (simp add: touch_table_def in_table_def Let_def)
  ultimately show ?thesis by simp
qed

lemma progress_run:
  "table_inv T m \<Longrightarrow> map_of m prev \<noteq> None \<Longrightarrow> chained prev ts \<Longrightarrow>
   (\<forall>U1 t U2 nm. T @ ts = U1 @ t # U2 \<longrightarrow> \<not> created U1 (t_parent t) nm False) \<Longrightarrow>
   \<exists>m'. forEach touch_table ts m = Inr m'"
proof (induction ts arbitrary: T m prev)
  case Nil
  then show ?case by simp
next
  case (Cons t ts)
  have step: "\<exists>m1. touch_table t m = Inr m1"
  proof (cases "map_of m (t_key t) = None")
    case False
    then show ?thesis by (simp add: touch_known)
  next
    case True
    have "t_key t \<noteq> ''database''" using Cons.prems(1) True by (auto simp add: table_inv_def)
    then have l: "t_parent t = prev" "t_key t = prev @ ''/'' @ t_part t" using Cons.prems(3) by auto
    obtain pv where pv: "map_of m prev = Some pv" using Cons.prems(2) by blast
    have ok: "entry_ok T m prev pv" using Cons.prems(1) pv by (simp add: table_inv_def)
    then have "under_db prev \<or> prev = ''database''"
      by (cases pv) (auto simp add: entry_ok_def)
    then have "under_db (t_key t)" using l(2) by (rule under_db_child)
    then have ni: "\<not> inherited (t_key t)" by (rule under_db_not_inherited)
    have p: "map_of m (t_parent t) = Some pv" using pv l(1) by simp
    have "case pv of Holder ks \<Rightarrow> True | Made i nm fo kd ch \<Rightarrow> ch \<noteq> None"
    proof (cases pv)
      case (Holder ks)
      then show ?thesis by simp
    next
      case (Made i nm fo kd ch)
      have "created T prev nm fo" using ok Made entry_ok_Made(4) by blast
      moreover have "\<not> created T (t_parent t) nm False" using Cons.prems(4) by blast
      ultimately have fo using l(1) by (cases fo) auto
      then have "ch \<noteq> None" using ok Made entry_ok_Made(3) by blast
      then show ?thesis using Made by simp
    qed
    with True ni p show ?thesis by (rule touch_new_returns)
  qed
  then obtain m1 where m1: "touch_table t m = Inr m1" by blast
  have inv1: "table_inv (T @ [t]) m1"
    using Cons.prems(1) Cons.prems(2) Cons.prems(3) m1 by (rule table_inv_step)
  have "\<forall>t' \<in> set (T @ [t]). map_of m1 (t_key t') \<noteq> None"
    using inv1 unfolding table_inv_def by blast
  then have k1: "map_of m1 (t_key t) \<noteq> None" by simp
  have c: "chained (t_key t) ts" using Cons.prems(3) by simp
  have "\<exists>m'. forEach touch_table ts m1 = Inr m'"
    using inv1 k1 c
  proof (rule Cons.IH)
    show "\<forall>U1 t' U2 nm. (T @ [t]) @ ts = U1 @ t' # U2 \<longrightarrow> \<not> created U1 (t_parent t') nm False"
      using Cons.prems(4) by simp
  qed
  then show ?case using m1 by simp
qed

text \<open>Without a clash, every new key has a parent with \<^verbatim>\<open>children\<close>.\<close>

lemma no_clash_safe:
  assumes L: "\<forall>e \<in> set L. startsWith (entry_path e) ''database/''" and nc: "\<not> clash L"
    and U: "concat (map entry_touches L) = U1 @ t # U2"
  shows "\<not> created U1 (t_parent t) nm False"
proof
  assume "created U1 (t_parent t) nm False"
  then obtain V1 t0 V2 where c: "U1 = V1 @ t0 # V2" "t_key t0 = t_parent t"
    "\<forall>t' \<in> set V1. t_key t' \<noteq> t_parent t" "t_last t0" "entry_type (t_entry t0) \<noteq> ''tree''"
    by (auto simp add: created_def)
  have T0: "concat (map entry_touches L) = V1 @ t0 # (V2 @ t # U2)" using U c(1) by simp
  have first: "\<forall>t' \<in> set V1. t_key t' \<noteq> t_key t0" using c(2) c(3) by simp
  note ce = creation_entry [OF T0 L first]
  have path: "entry_path (t_entry t0) = t_parent t" using ce(2) c(4) c(2) by simp
  have ff: "file_first L (t_parent t)"
    using ce(1) c(2) path c(5) by (simp add: file_first_def)
  have "t_entry t0 \<in> set L" using creation_step(1) [OF T0 L first] .
  then have "startsWith (entry_path (t_entry t0)) ''database/''" using L by blast
  then obtain r where "t_parent t = ''database/'' @ r" using path startsWith_split by metis
  then have pn: "t_parent t \<noteq> []" by simp
  obtain L1 e L2 a b where o: "L = L1 @ e # L2" "entry_touches e = a @ t # b"
    using concat_split [OF U] by blast
  have eL: "e \<in> set L" using o(1) by simp
  let ?ps = "split_on CHR ''/'' (entry_path e)"
  have "t \<in> set (touches e (length ?ps) 0 [] ?ps)" using o(2) by (simp add: entry_touches_def Let_def)
  then have "t_parent t \<in> set (butlast ([] # joins [] ?ps))" by (rule parent_touches)
  then have "t_parent t \<in> set (butlast (path_keys (entry_path e)))"
    using pn by (auto simp add: path_keys_def split: if_splits)
  then have "clash L" using eL ff by (auto simp add: clash_def)
  then show False using nc by simp
qed

lemma forEach_TypeError:
  "(\<And>x s e. f x s = Inl e \<Longrightarrow> e = TypeError) \<Longrightarrow> forEach f xs s = Inl e \<Longrightarrow> e = TypeError"
  by (induction xs arbitrary: s) (auto split: sum.splits)

lemma touch_table_TypeError: "touch_table t m = Inl e \<Longrightarrow> e = TypeError"
  by (auto simp add: touch_table_def push_child_def Let_def
      split: if_splits option.splits mapped.splits)

text \<open>
  The builder returns a tree for a filtered listing exactly when the listing has no clash;
  else it throws the \<^verbatim>\<open>TypeError\<close> of \<^verbatim>\<open>map[parentPath].children.push(node)\<close>.
\<close>

theorem flat_builder_returns:
  "(\<exists>t. buildTreeFromFlatList (rawNodes tree) = Inr t) \<longleftrightarrow> \<not> clash (rawNodes tree)"
proof -
  let ?L = "rawNodes tree"
  let ?T = "concat (map entry_touches ?L)"
  have "(\<exists>m. forEach visit_entry ?L [(''database'', Holder [])] = Inr m) \<longleftrightarrow> \<not> clash ?L"
  proof
    assume "\<exists>m. forEach visit_entry ?L [(''database'', Holder [])] = Inr m"
    then obtain m where m: "forEach visit_entry ?L [(''database'', Holder [])] = Inr m" by blast
    show "\<not> clash ?L" using final_table_inv [OF m] refl rawNodes_db by (rule run_no_clash)
  next
    assume nc: "\<not> clash ?L"
    have c: "chained ''database'' ?T" using rawNodes_db by (rule chained_entries)
    have "\<exists>m'. forEach touch_table ?T [(''database'', Holder [])] = Inr m'"
      using table_inv_start _ c
    proof (rule progress_run)
      show "map_of [(''database'', Holder [])] ''database'' \<noteq> None" by simp
      show "\<forall>U1 t U2 nm. [] @ ?T = U1 @ t # U2 \<longrightarrow> \<not> created U1 (t_parent t) nm False"
        using no_clash_safe [OF rawNodes_db nc] by simp
    qed
    then show "\<exists>m. forEach visit_entry ?L [(''database'', Holder [])] = Inr m"
      by (simp add: forEach_entries)
  qed
  then show ?thesis using builder_returns_table by simp
qed

theorem flat_builder_throws:
  "clash (rawNodes tree) \<Longrightarrow> buildTreeFromFlatList (rawNodes tree) = Inl TypeError"
proof -
  assume "clash (rawNodes tree)"
  then have n: "\<not> (\<exists>t. buildTreeFromFlatList (rawNodes tree) = Inr t)"
    using flat_builder_returns by blast
  obtain e where e: "buildTreeFromFlatList (rawNodes tree) = Inl e"
    using n by (cases "buildTreeFromFlatList (rawNodes tree)") auto
  have "e = TypeError"
  proof (cases "forEach visit_entry (rawNodes tree) [(''database'', Holder [])]")
    case (Inl e')
    then have "forEach touch_table (concat (map entry_touches (rawNodes tree))) [(''database'', Holder [])] = Inl e'"
      by (simp add: forEach_entries)
    then have "e' = TypeError" using touch_table_TypeError by (rule forEach_TypeError [rotated])
    then show ?thesis using e Inl by (simp add: buildTreeFromFlatList_def)
  next
    case (Inr m)
    then show ?thesis using e by (auto simp add: buildTreeFromFlatList_def split: option.splits)
  qed
  then show ?thesis using e by simp
qed

lemma clash_listing_throws:
  "clash (rawNodes clash_listing) \<and> buildTreeFromFlatList (rawNodes clash_listing) = Inl TypeError"
proof -
  have "buildTreeFromFlatList (rawNodes clash_listing) = Inl TypeError"
    by (simp add: clash_listing_def rawNodes_def startsWith_def buildTreeFromFlatList_def
      visit_entry_def visit_part_def in_table_def inherited_def push_child_def flat_kind_def
      toLowerCase_def to_lower_def root_tree_def Let_def)
  moreover from this have "clash (rawNodes clash_listing)" using flat_builder_returns [of clash_listing] by simp
  ultimately show ?thesis by simp
qed

section \<open>Randomization works on a copy\<close>






























lemma puzzle_heap_eq:
  "puzzle_heap = [Arr [VNum (Finite 1), VNum (Finite 2)], Obj [(''game_type'', VStr ''matching_puzzle''), (''sets'', VRef 0)]]"
  "puzzle_ref = VRef 1"
  by (simp_all add: puzzle_heap_def puzzle_ref_def puzzle_example_def)

lemma shuffle_pair_zero: "shuffle zero_source [x, y] 0 = ([y, x], 1)"
  by (simp add: shuffle_pair zero_index)

lemma puzzle_heap_run:
  "randomizePayload_h zero_source (VRef 1) puzzle_heap 0 =
     (Inr (VRef 3),
      [Arr [VNum (Finite 1), VNum (Finite 2)], Obj [(''game_type'', VStr ''matching_puzzle''), (''sets'', VRef 0)],
       Arr [VNum (Finite 1), VNum (Finite 2)], Obj [(''game_type'', VStr ''matching_puzzle''), (''sets'', VRef 4)],
       Arr [VNum (Finite 2), VNum (Finite 1)]], 1)"
  by (simp add: puzzle_heap_eq randomizePayload_h_def randomize_by_type_h_def JSON_stringify_def
     h_prop_def h_isArray_def h_set_def shuffle_prop_h_def shuffle_h_def shuffle_pair_zero Let_def)


text \<open>
  Claim C10. For an input that is \<^verbatim>\<open>null\<close>, \<^verbatim>\<open>undefined\<close> or not of object type,
  \<^verbatim>\<open>_randomizePayload\<close> returns that input itself, allocates nothing (the store is unchanged)
  and draws no random number.
\<close>

theorem randomize_non_object_identity:
  "data = VNull \<or> data = VUndefined \<or> \<not> typeof_object_v data \<Longrightarrow>
     randomizePayload_h rnd data h k = (Inr data, h, k)"
  by (auto simp add: randomizePayload_h_def)

theorem randomize_non_object_identity_witness:
  "\<not> typeof_object_v (VStr ''abc'') \<and>
   randomizePayload_h zero_source (VStr ''abc'') puzzle_heap 0 = (Inr (VStr ''abc''), puzzle_heap, 0) \<and>
   randomizePayload_h zero_source (VNum (Finite 5)) puzzle_heap 0 = (Inr (VNum (Finite 5)), puzzle_heap, 0) \<and>
   randomizePayload_h zero_source VNull puzzle_heap 0 = (Inr VNull, puzzle_heap, 0) \<and>
   randomizePayload_h zero_source VUndefined puzzle_heap 0 = (Inr VUndefined, puzzle_heap, 0)"
proof -
  have a: "\<not> typeof_object_v (VStr ''abc'')" "\<not> typeof_object_v (VNum (Finite 5))" by simp_all
  show ?thesis
    using a randomize_non_object_identity [of "VStr ''abc''" zero_source puzzle_heap 0]
      randomize_non_object_identity [of "VNum (Finite 5)" zero_source puzzle_heap 0]
      randomize_non_object_identity [of VNull zero_source puzzle_heap 0]
      randomize_non_object_identity [of VUndefined zero_source puzzle_heap 0]
    by blast
qed

subsection \<open>The two models on the example\<close>

text \<open>On the example the two models of \<^verbatim>\<open>_randomizePayload\<close> agree: the value that the result
  on the store denotes is the result on values, after the same number of draws.\<close>

lemma puzzle_models_agree:
  "\<exists>j v h' k'. randomizePayload zero_source puzzle_example 0 = Inr (j, k') \<and>
     randomizePayload_h zero_source puzzle_ref puzzle_heap 0 = (Inr v, h', k') \<and>
     JSON_stringify puzzle_heap puzzle_ref = Some puzzle_example \<and>
     JSON_stringify h' v = Some j"
proof -
  let ?j = "JObj [(''game_type'', JStr ''matching_puzzle''), (''sets'', JArr [JNum (Finite 2), JNum (Finite 1)])]"
  let ?h = "[Arr [VNum (Finite 1), VNum (Finite 2)], Obj [(''game_type'', VStr ''matching_puzzle''), (''sets'', VRef 0)],
       Arr [VNum (Finite 1), VNum (Finite 2)], Obj [(''game_type'', VStr ''matching_puzzle''), (''sets'', VRef 4)],
       Arr [VNum (Finite 2), VNum (Finite 1)]]"
  have a: "randomizePayload zero_source puzzle_example 0 = Inr (?j, 1)"
    by (simp add: puzzle_example_def randomizePayload_def randomize_by_type_def game_type_of_def
      shuffle_prop_def shuffle_pair zero_index Let_def)
  have r: "puzzle_ref = VRef 1" by (simp add: puzzle_ref_def puzzle_example_def)
  have b: "randomizePayload_h zero_source puzzle_ref puzzle_heap 0 = (Inr (VRef 3), ?h, 1)"
    unfolding r by (rule puzzle_heap_run)
  have c: "JSON_stringify ?h (VRef 3) = Some ?j" by (simp add: JSON_stringify_def)
  have d: "JSON_stringify puzzle_heap puzzle_ref = Some puzzle_example"
    unfolding r by (simp add: puzzle_heap_eq JSON_stringify_def puzzle_example_def)
  show ?thesis using a b c d by blast
qed


end
